theory Spec2Isabelle
  imports Complex_Main "HOL-Library.AList"
begin

section \<open>Question-ID standardization (standardize-question-ids.py)\<close>

text \<open>
  A shallow embedding of \<^verbatim>\<open>docs/architecture/standardize-question-ids.py\<close>:
  the taxonomy table, code resolution, the per-file assignment loop, the in-place rewrite of the
  question files and the duplicate verification that follows.

  Conventions of the model.
  \<^item> A value produced by \<^verbatim>\<open>json.load\<close> is a \<open>json\<close>; an object is an association list in
    insertion order, as a Python dict is.  Floats are the finite ones, given by their exact
    rational value (Python compares and hashes numbers by value).
  \<^item> A character is a code point below 256, and \<open>lower\<close> is \<^verbatim>\<open>str.lower\<close> on that range.
    Text with other code points, lone surrogates among them, is not a string of the model.
  \<^item> The directory is the list of files \<^verbatim>\<open>glob("*.json")\<close> yields, in the order it yields
    them.  A file is its name, what reading and parsing it gives, whether it can be opened
    for writing, and whether \<^verbatim>\<open>json.dump\<close> into the opened file completes.  Opening a file for
    writing empties it, so a dump that raises (on text that UTF-8 cannot encode, or on a
    failing device) leaves a file that no longer parses.  A dump that completes parses back to
    the value written.
  \<^item> Every \<^verbatim>\<open>print\<close> is an \<open>event\<close>; the message texts are left out, their arguments kept.
    The console can encode every string of the model, so no \<^verbatim>\<open>print\<close> of the model raises.
\<close>

subsection \<open>JSON values\<close>

datatype json =
    JNull
  | JBool bool
  | JInt int
  | JFloat rat
  | JStr string
  | JList "json list"
  | JDict "(string \<times> json) list"

datatype error = TypeError | AttributeError | JSONDecodeError | OSError | WriteError

text \<open>Python truth value: \<^verbatim>\<open>if x\<close>, \<^verbatim>\<open>not x\<close>.\<close>

fun truthy :: "json \<Rightarrow> bool" where
  "truthy JNull = False"
| "truthy (JBool b) = b"
| "truthy (JInt i) = (i \<noteq> 0)"
| "truthy (JFloat r) = (r \<noteq> 0)"
| "truthy (JStr s) = (s \<noteq> [])"
| "truthy (JList xs) = (xs \<noteq> [])"
| "truthy (JDict kvs) = (kvs \<noteq> [])"

text \<open>\<^verbatim>\<open>d.get(k, default)\<close> on a dict with string keys.\<close>

definition dict_get :: "(string \<times> 'v) list \<Rightarrow> string \<Rightarrow> 'v \<Rightarrow> 'v" where
  "dict_get d k dflt = (case map_of d k of Some v \<Rightarrow> v | None \<Rightarrow> dflt)"

text \<open>Lists and dicts are unhashable: using one as a dict key or set member raises TypeError.\<close>

fun hashable :: "json \<Rightarrow> bool" where
  "hashable (JList xs) = False"
| "hashable (JDict kvs) = False"
| "hashable j = True"

text \<open>
  Set membership is by hash and equality: \<^verbatim>\<open>True\<close>, \<^verbatim>\<open>1\<close> and \<^verbatim>\<open>1.0\<close> are one member.
\<close>

datatype key = KNone | KNum rat | KStr string

fun hash_key :: "json \<Rightarrow> key option" where
  "hash_key JNull = Some KNone"
| "hash_key (JBool b) = Some (KNum (if b then 1 else 0))"
| "hash_key (JInt i) = Some (KNum (of_int i))"
| "hash_key (JFloat r) = Some (KNum r)"
| "hash_key (JStr s) = Some (KStr s)"
| "hash_key (JList xs) = None"
| "hash_key (JDict kvs) = None"

subsection \<open>Strings: \<^verbatim>\<open>str.lower\<close> and the format \<^verbatim>\<open>{n:03d}\<close>\<close>

definition lower_char :: "char \<Rightarrow> char" where
  "lower_char c =
     (let n = (of_char c :: nat)
      in if (65 \<le> n \<and> n \<le> 90) \<or> (192 \<le> n \<and> n \<le> 222 \<and> n \<noteq> 215)
         then char_of (n + 32) else c)"

definition lower :: "string \<Rightarrow> string" where
  "lower s = map lower_char s"

definition digit_char :: "nat \<Rightarrow> char" where
  "digit_char d = char_of (48 + d)"

text \<open>\<^verbatim>\<open>str(n)\<close> for a natural number: its decimal digits, most significant first.\<close>

function str_nat :: "nat \<Rightarrow> string" where
  "str_nat n = (if n < 10 then [digit_char n] else str_nat (n div 10) @ [digit_char (n mod 10)])"
  by pat_completeness auto
termination
  by (relation "measure (\<lambda>n. n)") auto

declare str_nat.simps [simp del]

text \<open>\<^verbatim>\<open>f"{n:03d}"\<close>: zero-padded on the left to a width of at least 3.\<close>

definition fmt03d :: "nat \<Rightarrow> string" where
  "fmt03d n = (let s = str_nat n in replicate (3 - length s) (CHR ''0'') @ s)"

subsection \<open>The taxonomy table and code resolution\<close>

definition SUBSECTION_CODES :: "(string \<times> (string \<times> string) list) list" where
  "SUBSECTION_CODES =
    [(''Logical Reasoning'',
       [(''Assumption'', ''lr-assum''),
        (''Strengthen'', ''lr-str''),
        (''Weaken'', ''lr-wk''),
        (''Flaw in Reasoning'', ''lr-flaw''),
        (''Inference / Must Be True'', ''lr-infmbt''),
        (''Point at Issue / Agreement'', ''lr-poi''),
        (''Method of Reasoning'', ''lr-method''),
        (''Role of a Statement'', ''lr-role''),
        (''Parallel Reasoning'', ''lr-preas''),
        (''Parallel Flaw'', ''lr-pflw''),
        (''Principle Support'', ''lr-psup''),
        (''Principle Application'', ''lr-papp''),
        (''Paradox / Resolve-Explain'', ''lr-paradx'')]),
     (''Reading Comprehension'',
       [(''Main Point'', ''rc-main''),
        (''Primary Purpose'', ''rc-pp''),
        (''Author's Attitude / Tone'', ''rc-att''),
        (''Passage Organization / Structure'', ''rc-org''),
        (''Specific Detail'', ''rc-det''),
        (''Inference'', ''rc-inf''),
        (''Function / Role of Statement'', ''rc-func''),
        (''Comparative Passage Analysis'', ''rc-comp'')]),
     (''Writing Sample'',
       [(''Prompt Text'', ''ws-prompt''),
        (''Perspectives'', ''ws-persp''),
        (''Student Response'', ''ws-resp'')])]"

text \<open>
  \<^verbatim>\<open>SUBSECTION_CODES.get(section, {}).get(subsection, f"{section.lower()[:2]}-{subsection.lower()[:4]}")\<close>.
  The outer \<^verbatim>\<open>get\<close> hashes \<open>section\<close>; the default of the inner \<^verbatim>\<open>get\<close> is evaluated before
  the call, whether the pair is in the table or not, so \<^verbatim>\<open>.lower()\<close> is called on both
  arguments and raises AttributeError on anything but a string.
\<close>

definition get_standardized_code :: "json \<Rightarrow> json \<Rightarrow> error + string" where
  "get_standardized_code section subsection =
     (if \<not> hashable section then Inl TypeError
      else case section of
        JStr sec \<Rightarrow>
          (case subsection of
             JStr sub \<Rightarrow>
               (let inner = dict_get SUBSECTION_CODES sec [];
                    dflt = take 2 (lower sec) @ ''-'' @ take 4 (lower sub)
                in Inr (dict_get inner sub dflt))
           | _ \<Rightarrow> Inl AttributeError)
      | _ \<Rightarrow> Inl AttributeError)"

subsection \<open>Console output\<close>

datatype event =
    DirMissing
  | Starting
  | Processing string
  | SkippingNotArray string
  | MissingSection nat
  | Change nat json string
  | Updated nat nat
  | JsonError string
  | ProcessingError string error
  | Complete nat nat
  | Verifying
  | CheckError string error
  | FoundDuplicates nat
  | DuplicateLines "key set"
  | NoDuplicates nat

subsection \<open>ID assignment within one file\<close>

text \<open>
  The body of the loop \<^verbatim>\<open>for i, question in enumerate(questions)\<close> for one record: the
  lines printed, and either the exception raised or the record and the counter afterwards.
\<close>

definition process_question ::
  "nat \<Rightarrow> nat \<Rightarrow> json \<Rightarrow> event list \<times> (error + json \<times> nat)" where
  "process_question i updated_count question =
     (case question of
        JDict flds \<Rightarrow>
          (let section = dict_get flds ''section'' (JStr '''');
               subsection = dict_get flds ''subsection'' (JStr '''')
           in if \<not> truthy section \<or> \<not> truthy subsection
              then ([MissingSection (i + 1)], Inr (question, updated_count))
              else case get_standardized_code section subsection of
                Inl e \<Rightarrow> ([], Inl e)
              | Inr code \<Rightarrow>
                  (let new_id = code @ ''-'' @ fmt03d (i + 1);
                       old_id = dict_get flds ''question_id'' (JStr ''missing'');
                       question' = JDict (AList.update ''question_id'' (JStr new_id) flds)
                   in if old_id \<noteq> JStr new_id
                      then ((if updated_count + 1 \<le> 3 then [Change (i + 1) old_id new_id] else []),
                            Inr (question', updated_count + 1))
                      else ([], Inr (question', updated_count))))
      | _ \<Rightarrow> ([], Inr (question, updated_count)))"

fun process_questions ::
  "nat \<Rightarrow> nat \<Rightarrow> json list \<Rightarrow> event list \<times> (error + json list \<times> nat)" where
  "process_questions i c [] = ([], Inr ([], c))"
| "process_questions i c (q # qs) =
     (case process_question i c q of
        (ev, Inl e) \<Rightarrow> (ev, Inl e)
      | (ev, Inr (q', c')) \<Rightarrow>
          (case process_questions (i + 1) c' qs of
             (ev', Inl e) \<Rightarrow> (ev @ ev', Inl e)
           | (ev', Inr (qs', c'')) \<Rightarrow> (ev @ ev', Inr (q' # qs', c''))))"

subsection \<open>Files and the standardization pass\<close>

datatype content = Unreadable | BadJson | Json json

text \<open>
  \<open>fwritable\<close> says that \<^verbatim>\<open>open(json_file, 'w')\<close> succeeds, \<open>fdumps\<close> that the
  \<^verbatim>\<open>json.dump\<close> which follows completes.
\<close>

record jfile =
  fname :: string
  fcontent :: content
  fwritable :: bool
  fdumps :: bool

definition excluded :: "string \<Rightarrow> bool" where
  "excluded n = (n \<in> set [''lsat_taxonomy_2025.json'', ''universal_question_schema.json''])"

text \<open>
  The \<^verbatim>\<open>try\<close> block for one file: the lines printed, the file afterwards, and the file's
  \<open>updated_count\<close> when the block reached its end (the file then counts as processed).
  The write step opens the file, which truncates it, and then dumps: when the dump raises
  (\<open>WriteError\<close> stands for the exception, a UnicodeEncodeError or an OSError), the handler
  prints the error and the file is left truncated.
\<close>

definition process_file :: "jfile \<Rightarrow> event list \<times> jfile \<times> nat option" where
  "process_file f =
     (case fcontent f of
        Unreadable \<Rightarrow> ([Processing (fname f), ProcessingError (fname f) OSError], f, None)
      | BadJson \<Rightarrow> ([Processing (fname f), JsonError (fname f)], f, None)
      | Json (JList questions) \<Rightarrow>
          (case process_questions 0 0 questions of
             (ev, Inl e) \<Rightarrow> (Processing (fname f) # ev @ [ProcessingError (fname f) e], f, None)
           | (ev, Inr (questions', updated_count)) \<Rightarrow>
               if \<not> fwritable f
               then (Processing (fname f) # ev @ [ProcessingError (fname f) OSError], f, None)
               else if \<not> fdumps f
               then (Processing (fname f) # ev @ [ProcessingError (fname f) WriteError],
                     f\<lparr>fcontent := BadJson\<rparr>, None)
               else (Processing (fname f) # ev @ [Updated updated_count (length questions)],
                     f\<lparr>fcontent := Json (JList questions')\<rparr>, Some updated_count))
      | Json _ \<Rightarrow> ([Processing (fname f), SkippingNotArray (fname f)], f, None))"

text \<open>
  The loop over the files, from the counters \<open>files_processed\<close> and
  \<open>total_questions_updated\<close>.
\<close>

fun process_files ::
  "jfile list \<Rightarrow> nat \<Rightarrow> nat \<Rightarrow> event list \<times> jfile list \<times> nat \<times> nat" where
  "process_files [] files_processed total_updated = ([], [], files_processed, total_updated)"
| "process_files (f # fs) files_processed total_updated =
     (if excluded (fname f)
      then (case process_files fs files_processed total_updated of
              (ev, fs', fp, tq) \<Rightarrow> (ev, f # fs', fp, tq))
      else (case process_file f of
              (ev, f', r) \<Rightarrow>
                (case process_files fs
                        (case r of None \<Rightarrow> files_processed | Some c \<Rightarrow> files_processed + 1)
                        (case r of None \<Rightarrow> total_updated | Some c \<Rightarrow> total_updated + c) of
                   (ev', fs', fp, tq) \<Rightarrow> (ev @ ev', f' # fs', fp, tq))))"

subsection \<open>Duplicate verification\<close>

text \<open>
  \<^verbatim>\<open>for question in questions\<close> on whatever the file holds: a list gives its elements, a dict
  its keys, a string its characters; anything else is not iterable.
\<close>

fun iterate :: "json \<Rightarrow> error + json list" where
  "iterate (JList xs) = Inr xs"
| "iterate (JDict kvs) = Inr (map (\<lambda>kv. JStr (fst kv)) kvs)"
| "iterate (JStr s) = Inr (map (\<lambda>c. JStr [c]) s)"
| "iterate j = Inl TypeError"

text \<open>
  The scan of one file's records, on the sets \<open>all_ids\<close> and \<open>duplicate_ids\<close>.  The sets are
  updated in place, so what was added before an exception stays.
\<close>

fun scan_questions ::
  "json list \<Rightarrow> key set \<Rightarrow> key set \<Rightarrow> (key set \<times> key set) \<times> error option" where
  "scan_questions [] all_ids duplicate_ids = ((all_ids, duplicate_ids), None)"
| "scan_questions (q # qs) all_ids duplicate_ids =
     (case q of
        JDict flds \<Rightarrow>
          (let qid = dict_get flds ''question_id'' JNull
           in if truthy qid
              then (case hash_key qid of
                      None \<Rightarrow> ((all_ids, duplicate_ids), Some TypeError)
                    | Some k \<Rightarrow>
                        if k \<in> all_ids
                        then scan_questions qs all_ids (insert k duplicate_ids)
                        else scan_questions qs (insert k all_ids) duplicate_ids)
              else scan_questions qs all_ids duplicate_ids)
      | _ \<Rightarrow> scan_questions qs all_ids duplicate_ids)"

definition scan_file ::
  "jfile \<Rightarrow> key set \<Rightarrow> key set \<Rightarrow> event list \<times> key set \<times> key set" where
  "scan_file f all_ids duplicate_ids =
     (case fcontent f of
        Unreadable \<Rightarrow> ([CheckError (fname f) OSError], all_ids, duplicate_ids)
      | BadJson \<Rightarrow> ([CheckError (fname f) JSONDecodeError], all_ids, duplicate_ids)
      | Json j \<Rightarrow>
          (case iterate j of
             Inl e \<Rightarrow> ([CheckError (fname f) e], all_ids, duplicate_ids)
           | Inr questions \<Rightarrow>
               (case scan_questions questions all_ids duplicate_ids of
                  ((a, d), None) \<Rightarrow> ([], a, d)
                | ((a, d), Some e) \<Rightarrow> ([CheckError (fname f) e], a, d))))"

fun scan_files ::
  "jfile list \<Rightarrow> key set \<Rightarrow> key set \<Rightarrow> event list \<times> key set \<times> key set" where
  "scan_files [] all_ids duplicate_ids = ([], all_ids, duplicate_ids)"
| "scan_files (f # fs) all_ids duplicate_ids =
     (if excluded (fname f) then scan_files fs all_ids duplicate_ids
      else (case scan_file f all_ids duplicate_ids of
              (ev, a, d) \<Rightarrow>
                (case scan_files fs a d of (ev', a', d') \<Rightarrow> (ev @ ev', a', d'))))"

text \<open>
  \<^verbatim>\<open>sorted(duplicate_ids)\<close> compares the members with \<^verbatim>\<open><\<close>, which is defined between two
  strings and between two numbers and raises TypeError otherwise.
\<close>

fun is_KStr :: "key \<Rightarrow> bool" where
  "is_KStr (KStr s) = True"
| "is_KStr k = False"

fun is_KNum :: "key \<Rightarrow> bool" where
  "is_KNum (KNum r) = True"
| "is_KNum k = False"

definition sortable :: "key set \<Rightarrow> bool" where
  "sortable D = (card D \<le> 1 \<or> (\<forall>k \<in> D. is_KStr k) \<or> (\<forall>k \<in> D. is_KNum k))"

text \<open>
  \<open>verify_no_duplicates\<close>: the lines printed and the exception that leaves the function, if
  any.  \<open>DuplicateLines D\<close> stands for the lines listing \<open>D\<close> in sorted order.  The report is
  outside every handler: what \<^verbatim>\<open>sorted\<close> raises leaves the function, and so would a
  \<^verbatim>\<open>print\<close> of the listing that raised, which no ID of the model makes it do.
\<close>

definition verify_no_duplicates :: "jfile list \<Rightarrow> event list \<times> error option" where
  "verify_no_duplicates fs =
     (case scan_files fs {} {} of
        (ev, all_ids, duplicate_ids) \<Rightarrow>
          if duplicate_ids \<noteq> {}
          then (if sortable duplicate_ids
                then (Verifying # ev @ [FoundDuplicates (card duplicate_ids),
                                        DuplicateLines duplicate_ids], None)
                else (Verifying # ev @ [FoundDuplicates (card duplicate_ids)], Some TypeError))
          else (Verifying # ev @ [NoDuplicates (card all_ids)], None))"

text \<open>
  \<open>standardize_question_ids\<close> on the questions directory (\<open>None\<close> when it does not exist):
  the lines printed, the directory afterwards, and the exception that leaves the function,
  if any.
\<close>

definition standardize_question_ids ::
  "jfile list option \<Rightarrow> event list \<times> jfile list option \<times> error option" where
  "standardize_question_ids dir =
     (case dir of
        None \<Rightarrow> ([DirMissing], None, None)
      | Some fs \<Rightarrow>
          (case process_files fs 0 0 of
             (ev, fs', files_processed, total_questions_updated) \<Rightarrow>
               (case verify_no_duplicates fs' of
                  (ev', r) \<Rightarrow>
                    (Starting # ev @ [Complete files_processed total_questions_updated] @ ev',
                     Some fs', r))))"

subsection \<open>Observations on files, records and runs\<close>

text \<open>
  Notions used to state properties of the pass; none of them is part of the script.
  \<open>records f\<close> is the question array a file holds (empty when the file holds no array),
  \<open>field q k\<close> the value of key \<open>k\<close> in a record, \<open>section_of\<close> and \<open>subsection_of\<close> what
  the loop reads with \<^verbatim>\<open>question.get(..., '')\<close>, and \<open>old_id\<close> what it reads with
  \<^verbatim>\<open>question.get('question_id', 'missing')\<close>.
\<close>

definition records :: "jfile \<Rightarrow> json list" where
  "records f = (case fcontent f of Json (JList qs) \<Rightarrow> qs | _ \<Rightarrow> [])"

definition field :: "json \<Rightarrow> string \<Rightarrow> json option" where
  "field q k = (case q of JDict flds \<Rightarrow> map_of flds k | _ \<Rightarrow> None)"

definition other_fields :: "json \<Rightarrow> (string \<times> json) list" where
  "other_fields q = (case q of JDict flds \<Rightarrow> AList.delete ''question_id'' flds | _ \<Rightarrow> [])"

definition is_dict :: "json \<Rightarrow> bool" where
  "is_dict q = (case q of JDict flds \<Rightarrow> True | _ \<Rightarrow> False)"

definition section_of :: "json \<Rightarrow> json" where
  "section_of q = (case q of JDict flds \<Rightarrow> dict_get flds ''section'' (JStr '''') | _ \<Rightarrow> JStr '''')"

definition subsection_of :: "json \<Rightarrow> json" where
  "subsection_of q =
     (case q of JDict flds \<Rightarrow> dict_get flds ''subsection'' (JStr '''') | _ \<Rightarrow> JStr '''')"

definition old_id :: "json \<Rightarrow> json" where
  "old_id q =
     (case q of JDict flds \<Rightarrow> dict_get flds ''question_id'' (JStr ''missing'')
      | _ \<Rightarrow> JStr ''missing'')"

text \<open>A record the loop does not skip: a dict whose section and subsection are both truthy.\<close>

definition classified :: "json \<Rightarrow> bool" where
  "classified q = (is_dict q \<and> truthy (section_of q) \<and> truthy (subsection_of q))"

text \<open>The ID the loop computes for the record at index \<open>i\<close> (empty when code resolution raises).\<close>

definition new_id :: "nat \<Rightarrow> json \<Rightarrow> string" where
  "new_id i q =
     (case get_standardized_code (section_of q) (subsection_of q) of
        Inr code \<Rightarrow> code @ ''-'' @ fmt03d (i + 1)
      | Inl e \<Rightarrow> [])"

definition changed :: "nat \<Rightarrow> json \<Rightarrow> bool" where
  "changed i q = (classified q \<and> old_id q \<noteq> JStr (new_id i q))"

text \<open>
  A file counts as processed when the \<^verbatim>\<open>try\<close> block reaches \<^verbatim>\<open>files_processed += 1\<close>;
  \<open>updated_in f\<close> is what the file adds to \<open>total_questions_updated\<close>.
\<close>

definition file_processed :: "jfile \<Rightarrow> bool" where
  "file_processed f = (\<not> excluded (fname f) \<and> snd (snd (process_file f)) \<noteq> None)"

definition updated_in :: "jfile \<Rightarrow> nat" where
  "updated_in f =
     (if excluded (fname f) then 0
      else case snd (snd (process_file f)) of None \<Rightarrow> 0 | Some c \<Rightarrow> c)"

text \<open>
  The write step of a file fails halfway: the loop over its records ends normally, the file
  opens for writing, and the dump raises.
\<close>

definition dump_fails :: "jfile \<Rightarrow> bool" where
  "dump_fails f =
     (fwritable f \<and> \<not> fdumps f
      \<and> (case fcontent f of
           Json (JList qs) \<Rightarrow> (case snd (process_questions 0 0 qs) of Inr r \<Rightarrow> True | Inl e \<Rightarrow> False)
         | _ \<Rightarrow> False))"

text \<open>The three components of a run of the pass.\<close>

definition printed :: "jfile list option \<Rightarrow> event list" where
  "printed dir = fst (standardize_question_ids dir)"

definition dir_after :: "jfile list option \<Rightarrow> jfile list option" where
  "dir_after dir = fst (snd (standardize_question_ids dir))"

definition outcome :: "jfile list option \<Rightarrow> error option" where
  "outcome dir = snd (snd (standardize_question_ids dir))"

definition files_after :: "jfile list \<Rightarrow> jfile list" where
  "files_after fs = (case dir_after (Some fs) of Some fs' \<Rightarrow> fs' | None \<Rightarrow> [])"

text \<open>
  The verification pass: \<open>id_of q\<close> is what the scan reads with
  \<^verbatim>\<open>question.get('question_id')\<close> (nothing for an entry that is not a dict), \<open>blocks q\<close> says
  that the membership test raises on it, and the scan reaches record \<open>i\<close> of file \<open>j\<close> when the
  file is not excluded and no earlier record of that file blocks.
\<close>

definition id_of :: "json \<Rightarrow> json" where
  "id_of q = (case q of JDict flds \<Rightarrow> dict_get flds ''question_id'' JNull | _ \<Rightarrow> JNull)"

definition blocks :: "json \<Rightarrow> bool" where
  "blocks q = (truthy (id_of q) \<and> \<not> hashable (id_of q))"

definition reached :: "jfile list \<Rightarrow> nat \<Rightarrow> nat \<Rightarrow> bool" where
  "reached fs j i =
     (j < length fs \<and> \<not> excluded (fname (fs ! j)) \<and> i < length (records (fs ! j))
      \<and> (\<forall>q \<in> set (take i (records (fs ! j))). \<not> blocks q))"

definition distinct_ids :: "jfile list \<Rightarrow> key set" where
  "distinct_ids fs = fst (snd (scan_files fs {} {}))"

definition duplicates :: "jfile list \<Rightarrow> key set" where
  "duplicates fs = snd (snd (scan_files fs {} {}))"

text \<open>A record without a usable \<open>question_id\<close>: the key is missing, null or the empty string.\<close>

definition lacks_id :: "json \<Rightarrow> bool" where
  "lacks_id q =
     (field q ''question_id'' = None \<or> field q ''question_id'' = Some JNull
      \<or> field q ''question_id'' = Some (JStr ''''))"

subsection \<open>Example inputs\<close>

definition five_file :: jfile where
  "five_file =
     \<lparr>fname = ''strengthen.json'',
      fcontent = Json (JList
        [JDict [(''question_id'', JStr ''lr-str-001''), (''section'', JStr ''Logical Reasoning''),
                (''subsection'', JStr ''Strengthen'')],
         JDict [(''section'', JStr ''Foo''), (''subsection'', JStr ''Barbaz''),
                (''difficulty'', JInt 3)],
         JStr ''note'',
         JDict [(''question_id'', JStr ''keep''), (''section'', JStr ''Logical Reasoning'')],
         JDict [(''section'', JStr ''Logical Reasoning''), (''subsection'', JStr ''Strengthen''),
                (''question_id'', JStr ''old-1'')]]),
      fwritable = True, fdumps = True\<rparr>"

definition big_file :: jfile where
  "big_file =
     \<lparr>fname = ''big.json'',
      fcontent = Json (JList (replicate 999 (JDict [(''question_id'', JStr ''draft'')])
        @ [JDict [(''section'', JStr ''Logical Reasoning''),
                  (''subsection'', JStr ''Strengthen'')]])),
      fwritable = True, fdumps = True\<rparr>"

definition five_file_after :: jfile where
  "five_file_after =
     \<lparr>fname = ''strengthen.json'',
      fcontent = Json (JList
        [JDict [(''question_id'', JStr ''lr-str-001''), (''section'', JStr ''Logical Reasoning''),
                (''subsection'', JStr ''Strengthen'')],
         JDict [(''section'', JStr ''Foo''), (''subsection'', JStr ''Barbaz''),
                (''difficulty'', JInt 3), (''question_id'', JStr ''fo-barb-002'')],
         JStr ''note'',
         JDict [(''question_id'', JStr ''keep''), (''section'', JStr ''Logical Reasoning'')],
         JDict [(''section'', JStr ''Logical Reasoning''), (''subsection'', JStr ''Strengthen''),
                (''question_id'', JStr ''lr-str-005'')]]),
      fwritable = True, fdumps = True\<rparr>"

definition mixed_file :: jfile where
  "mixed_file =
     \<lparr>fname = ''mixed.json'',
      fcontent = Json (JList
        [JDict [(''section'', JStr ''Logical Reasoning''), (''subsection'', JStr ''Weaken''),
                (''question_id'', JStr ''w1'')],
         JDict [(''section'', JInt 5), (''subsection'', JStr ''Weaken''),
                (''question_id'', JStr ''w2'')]]),
      fwritable = True, fdumps = True\<rparr>"

definition weaken_file :: jfile where
  "weaken_file =
     \<lparr>fname = ''weaken.json'',
      fcontent = Json (JList
        [JDict [(''section'', JStr ''Logical Reasoning''), (''subsection'', JStr ''Weaken'')]]),
      fwritable = True, fdumps = True\<rparr>"

definition strengthen_a :: jfile where
  "strengthen_a =
     \<lparr>fname = ''strengthen_a.json'',
      fcontent = Json (JList
        [JDict [(''question_id'', JStr ''a-1''), (''section'', JStr ''Logical Reasoning''),
                (''subsection'', JStr ''Strengthen'')]]),
      fwritable = True, fdumps = True\<rparr>"

definition strengthen_b :: jfile where
  "strengthen_b =
     \<lparr>fname = ''strengthen_b.json'',
      fcontent = Json (JList
        [JDict [(''question_id'', JStr ''b-1''), (''section'', JStr ''Logical Reasoning''),
                (''subsection'', JStr ''Strengthen'')]]),
      fwritable = True, fdumps = True\<rparr>"

definition blocked_file :: jfile where
  "blocked_file =
     \<lparr>fname = ''blocked.json'',
      fcontent = Json (JList
        [JDict [(''question_id'', JList [JStr ''x''])],
         JDict [(''question_id'', JStr ''dup'')]]),
      fwritable = True, fdumps = True\<rparr>"

definition dup_file :: jfile where
  "dup_file =
     \<lparr>fname = ''dup.json'',
      fcontent = Json (JList [JDict [(''question_id'', JStr ''dup'')]]),
      fwritable = True, fdumps = True\<rparr>"

definition no_id_file :: jfile where
  "no_id_file =
     \<lparr>fname = ''no_ids.json'',
      fcontent = Json (JList
        [JDict [(''content'', JStr ''first'')],
         JDict [(''question_id'', JNull)],
         JDict [(''question_id'', JStr '''')],
         JDict [(''question_id'', JStr ''only'')]]),
      fwritable = True, fdumps = True\<rparr>"




definition mixed_ids_file :: jfile where
  "mixed_ids_file =
     \<lparr>fname = ''legacy.json'',
      fcontent = Json (JList
        [JDict [(''question_id'', JInt 7)], JDict [(''question_id'', JInt 7)],
         JDict [(''question_id'', JStr ''a'')], JDict [(''question_id'', JStr ''a'')]]),
      fwritable = True, fdumps = True\<rparr>"


section \<open>Properties\<close>

subsection \<open>Formatting\<close>

lemma digit_char_0: "digit_char 0 = CHR ''0''"
  by code_simp

lemma str_nat_small: "n < 10 \<Longrightarrow> str_nat n = [digit_char n]"
  by (simp add: str_nat.simps)

lemma str_nat_step: "10 \<le> n \<Longrightarrow> str_nat n = str_nat (n div 10) @ [digit_char (n mod 10)]"
  by (subst str_nat.simps) simp

lemma str_nat_nonempty: "1 \<le> length (str_nat n)"
  by (cases "n < 10") (simp_all add: str_nat_small str_nat_step)

lemma fmt03d_three_digits:
  assumes "n < 1000"
  shows "fmt03d n = [digit_char (n div 100), digit_char (n div 10 mod 10), digit_char (n mod 10)]"
proof -
  consider "n < 10" | "10 \<le> n" "n < 100" | "100 \<le> n" "n < 1000"
    using assms by linarith
  then show ?thesis
  proof cases
    case 1
    then show ?thesis
      by (simp add: fmt03d_def str_nat_small digit_char_0 numeral_2_eq_2)
  next
    case 2
    then have "n div 10 < 10" by simp
    with 2 show ?thesis
      by (simp add: fmt03d_def str_nat_small str_nat_step digit_char_0)
  next
    case 3
    then have a: "10 \<le> n" and b: "10 \<le> n div 10" and c: "n div 10 div 10 < 10"
      by simp_all
    have d: "n div 10 div 10 = n div 100"
      by (simp add: div_mult2_eq[symmetric])
    have e: "n div 10 mod 10 < 10" by simp
    show ?thesis
      using c by (simp add: fmt03d_def str_nat_step[OF a] str_nat_step[OF b] str_nat_small d)
  qed
qed

lemma fmt03d_wide:
  assumes "1000 \<le> n"
  shows "fmt03d n = str_nat n" and "4 \<le> length (str_nat n)"
proof -
  from assms have a: "10 \<le> n" and b: "10 \<le> n div 10" and c: "10 \<le> n div 10 div 10"
    by simp_all
  show "4 \<le> length (str_nat n)"
    using str_nat_nonempty[of "n div 10 div 10 div 10"]
    by (simp add: str_nat_step[OF a] str_nat_step[OF b] str_nat_step[OF c])
  then show "fmt03d n = str_nat n"
    by (simp add: fmt03d_def)
qed

subsection \<open>Code resolution\<close>

lemma SUBSECTION_CODES_distinct: "distinct (map fst SUBSECTION_CODES)"
  by (simp add: SUBSECTION_CODES_def)

lemma SUBSECTION_CODES_inner_distinct:
  "(sec, inner) \<in> set SUBSECTION_CODES \<Longrightarrow> distinct (map fst inner)"
  by (auto simp add: SUBSECTION_CODES_def)

lemma get_standardized_code_str:
  "get_standardized_code (JStr sec) (JStr sub) =
     Inr (dict_get (dict_get SUBSECTION_CODES sec []) sub
            (take 2 (lower sec) @ ''-'' @ take 4 (lower sub)))"
  by (simp add: get_standardized_code_def)

lemma get_standardized_code_in_table:
  assumes "(sec, inner) \<in> set SUBSECTION_CODES" and "(sub, code) \<in> set inner"
  shows "get_standardized_code (JStr sec) (JStr sub) = Inr code"
proof -
  have "map_of SUBSECTION_CODES sec = Some inner"
    using assms(1) SUBSECTION_CODES_distinct by (rule_tac map_of_is_SomeI)
  moreover have "map_of inner sub = Some code"
    using SUBSECTION_CODES_inner_distinct[OF assms(1)] assms(2) by (rule map_of_is_SomeI)
  ultimately show ?thesis
    by (simp add: get_standardized_code_str dict_get_def)
qed

lemma get_standardized_code_fallback:
  assumes "\<forall>inner code. (sec, inner) \<in> set SUBSECTION_CODES \<longrightarrow> (sub, code) \<notin> set inner"
  shows "get_standardized_code (JStr sec) (JStr sub) =
           Inr (take 2 (lower sec) @ ''-'' @ take 4 (lower sub))"
proof (cases "map_of SUBSECTION_CODES sec")
  case None
  then show ?thesis
    by (simp add: get_standardized_code_str dict_get_def)
next
  case (Some inner)
  then have "(sec, inner) \<in> set SUBSECTION_CODES"
    by (rule map_of_SomeD)
  with assms have "\<forall>code. (sub, code) \<notin> set inner"
    by blast
  then have "map_of inner sub = None"
    by (metis map_of_SomeD not_None_eq)
  with Some show ?thesis
    by (simp add: get_standardized_code_str dict_get_def)
qed

lemma get_standardized_code_Inr:
  "get_standardized_code section subsection = Inr code \<Longrightarrow>
     \<exists>sec sub. section = JStr sec \<and> subsection = JStr sub"
  by (auto simp add: get_standardized_code_def split: if_splits json.splits)

subsection \<open>The assignment loop\<close>

lemma process_question_not_dict:
  "\<not> is_dict q \<Longrightarrow> process_question i c q = ([], Inr (q, c))"
  by (cases q) (simp_all add: process_question_def is_dict_def)

lemma process_question_skip:
  "is_dict q \<Longrightarrow> \<not> classified q \<Longrightarrow>
     process_question i c q = ([MissingSection (i + 1)], Inr (q, c))"
  by (cases q)
     (simp_all add: process_question_def is_dict_def classified_def section_of_def subsection_of_def)

lemma process_question_raise:
  "classified q \<Longrightarrow> get_standardized_code (section_of q) (subsection_of q) = Inl e \<Longrightarrow>
     process_question i c q = ([], Inl e)"
  by (cases q)
     (simp_all add: process_question_def is_dict_def classified_def section_of_def subsection_of_def)

lemma process_question_assign:
  assumes "classified q" and "get_standardized_code (section_of q) (subsection_of q) = Inr code"
    and "q = JDict flds"
  shows "\<exists>ev. process_question i c q =
           (ev, Inr (JDict (AList.update ''question_id'' (JStr (code @ ''-'' @ fmt03d (i + 1))) flds),
                     if dict_get flds ''question_id'' (JStr ''missing'') \<noteq> JStr (code @ ''-'' @ fmt03d (i + 1))
                     then c + 1 else c))"
  using assms
  by (simp add: process_question_def is_dict_def classified_def section_of_def subsection_of_def Let_def)

lemma process_questions_length:
  "process_questions i c qs = (ev, Inr (qs', c')) \<Longrightarrow> length qs' = length qs"
proof (induction qs arbitrary: i c ev qs' c')
  case Nil
  then show ?case by simp
next
  case (Cons q qs)
  then show ?case
    by (auto split: prod.splits sum.splits)
qed

lemma process_questions_nth:
  "process_questions i c qs = (ev, Inr (qs', c')) \<Longrightarrow> k < length qs \<Longrightarrow>
     \<exists>ck evk ck'. process_question (i + k) ck (qs ! k) = (evk, Inr (qs' ! k, ck')) \<and> set evk \<subseteq> set ev"
proof (induction qs arbitrary: i c ev qs' c' k)
  case Nil
  then show ?case by simp
next
  case (Cons q qs)
  from Cons.prems(1) obtain e1 q1 c1 e2 qs2 where
    h: "process_question i c q = (e1, Inr (q1, c1))"
       "process_questions (i + 1) c1 qs = (e2, Inr (qs2, c'))"
       "ev = e1 @ e2" "qs' = q1 # qs2"
    by (auto split: prod.splits sum.splits)
  show ?case
  proof (cases k)
    case 0
    with h show ?thesis by auto
  next
    case (Suc k')
    with Cons.prems(2) have "k' < length qs" by simp
    from Cons.IH[OF h(2) this] obtain ck evk ck' where
      "process_question (i + 1 + k') ck (qs ! k') = (evk, Inr (qs2 ! k', ck'))" "set evk \<subseteq> set e2"
      by blast
    with Suc h show ?thesis
      by (intro exI[of _ ck] exI[of _ evk] exI[of _ ck']) auto
  qed
qed

subsection \<open>Files and runs\<close>

lemma process_file_Some:
  assumes "snd (snd (process_file f)) = Some c"
  shows "\<exists>qs ev qs'. fcontent f = Json (JList qs) \<and> fwritable f \<and> fdumps f \<and>
           process_questions 0 0 qs = (ev, Inr (qs', c)) \<and>
           process_file f = (Processing (fname f) # ev @ [Updated c (length qs)],
                             f\<lparr>fcontent := Json (JList qs')\<rparr>, Some c)"
  using assms
  by (auto simp add: process_file_def split: content.splits json.splits prod.splits sum.splits if_splits)

lemma process_file_None:
  "snd (snd (process_file f)) = None \<Longrightarrow>
     fst (snd (process_file f)) = (if dump_fails f then f\<lparr>fcontent := BadJson\<rparr> else f)"
  by (auto simp add: process_file_def dump_fails_def
      split: content.splits json.splits prod.splits sum.splits if_splits)

lemma process_file_dump_fails:
  assumes "dump_fails f"
  shows "snd (process_file f) = (f\<lparr>fcontent := BadJson\<rparr>, None)"
    and "ProcessingError (fname f) WriteError \<in> set (fst (process_file f))"
  using assms
  by (auto simp add: process_file_def dump_fails_def
      split: content.splits json.splits prod.splits sum.splits if_splits)

lemma process_file_BadJson:
  "fcontent f = BadJson \<Longrightarrow> process_file f = ([Processing (fname f), JsonError (fname f)], f, None)"
  by (simp add: process_file_def)

lemma process_file_raise:
  assumes "fcontent f = Json (JList qs)" and "snd (process_questions 0 0 qs) = Inl e"
  shows "process_file f =
           (Processing (fname f) # fst (process_questions 0 0 qs) @ [ProcessingError (fname f) e],
            f, None)"
  using assms by (auto simp add: process_file_def split: prod.splits sum.splits)

lemma process_file_name: "fname (fst (snd (process_file f))) = fname f"
  by (auto simp add: process_file_def split: content.splits json.splits prod.splits sum.splits if_splits)

lemma process_file_writable: "fwritable (fst (snd (process_file f))) = fwritable f"
  by (auto simp add: process_file_def split: content.splits json.splits prod.splits sum.splits if_splits)

lemma process_files_files:
  "process_files fs fp tq = (ev, fs', fp', tq') \<Longrightarrow>
     fs' = map (\<lambda>f. if excluded (fname f) then f else fst (snd (process_file f))) fs"
proof (induction fs arbitrary: fp tq ev fs' fp' tq')
  case Nil
  then show ?case by simp
next
  case (Cons f fs)
  then show ?case
    by (fastforce split: if_splits prod.splits)
qed

lemma process_files_events:
  "process_files fs fp tq = (ev, fs', fp', tq') \<Longrightarrow> f \<in> set fs \<Longrightarrow> \<not> excluded (fname f) \<Longrightarrow>
     set (fst (process_file f)) \<subseteq> set ev"
proof (induction fs arbitrary: fp tq ev fs' fp' tq')
  case Nil
  then show ?case by simp
next
  case (Cons g fs)
  show ?case
  proof (cases "excluded (fname g)")
    case True
    with Cons.prems obtain fs2 where "process_files fs fp tq = (ev, fs2, fp', tq')" "f \<in> set fs"
      by (auto split: prod.splits)
    with Cons.IH Cons.prems(3) show ?thesis by blast
  next
    case False
    with Cons.prems(1) obtain e1 g1 r e2 fs2 fp1 tq1 where
      h: "process_file g = (e1, g1, r)" "process_files fs fp1 tq1 = (e2, fs2, fp', tq')" "ev = e1 @ e2"
      by (auto split: prod.splits)
    show ?thesis
    proof (cases "f = g")
      case True
      with h show ?thesis by auto
    next
      case False
      with Cons.prems(2) have "f \<in> set fs" by simp
      from Cons.IH[OF h(2) this Cons.prems(3)] h(3) show ?thesis by auto
    qed
  qed
qed

lemma process_files_counts:
  "process_files fs fp tq = (ev, fs', fp', tq') \<Longrightarrow>
     fp' = fp + length (filter file_processed fs) \<and> tq' = tq + sum_list (map updated_in fs)"
proof (induction fs arbitrary: fp tq ev fs' fp' tq')
  case Nil
  then show ?case by simp
next
  case (Cons g fs)
  show ?case
  proof (cases "excluded (fname g)")
    case True
    with Cons.prems obtain fs2 where "process_files fs fp tq = (ev, fs2, fp', tq')"
      by (auto split: prod.splits)
    from Cons.IH[OF this] True show ?thesis
      by (simp add: file_processed_def updated_in_def)
  next
    case False
    with Cons.prems(1) obtain e1 g1 r e2 fs2 where
      h: "process_file g = (e1, g1, r)"
         "process_files fs (case r of None \<Rightarrow> fp | Some c \<Rightarrow> fp + 1)
                           (case r of None \<Rightarrow> tq | Some c \<Rightarrow> tq + c) = (e2, fs2, fp', tq')"
      by (auto split: prod.splits)
    from Cons.IH[OF h(2)] h(1) False show ?thesis
      by (cases r) (simp_all add: file_processed_def updated_in_def)
  qed
qed

lemma standardize_Some:
  "standardize_question_ids (Some fs) =
     (Starting # fst (process_files fs 0 0)
        @ [Complete (fst (snd (snd (process_files fs 0 0)))) (snd (snd (snd (process_files fs 0 0))))]
        @ fst (verify_no_duplicates (fst (snd (process_files fs 0 0)))),
      Some (fst (snd (process_files fs 0 0))),
      snd (verify_no_duplicates (fst (snd (process_files fs 0 0)))))"
  by (simp add: standardize_question_ids_def split: prod.splits)

lemma files_after_map:
  "files_after fs = map (\<lambda>f. if excluded (fname f) then f else fst (snd (process_file f))) fs"
proof -
  obtain ev fs' fp tq where h: "process_files fs 0 0 = (ev, fs', fp, tq)"
    by (cases "process_files fs 0 0") auto
  from process_files_files[OF h] h show ?thesis
    by (simp add: files_after_def dir_after_def standardize_Some)
qed

lemma files_after_length: "length (files_after fs) = length fs"
  by (simp add: files_after_map)

lemma files_after_nth:
  "j < length fs \<Longrightarrow> files_after fs ! j =
     (if excluded (fname (fs ! j)) then fs ! j else fst (snd (process_file (fs ! j))))"
  by (simp add: files_after_map)

lemma printed_events:
  assumes "f \<in> set fs" and "\<not> excluded (fname f)"
  shows "set (fst (process_file f)) \<subseteq> set (printed (Some fs))"
proof -
  obtain ev fs' fp tq where h: "process_files fs 0 0 = (ev, fs', fp, tq)"
    by (cases "process_files fs 0 0") auto
  from process_files_events[OF h assms] h show ?thesis
    by (auto simp add: printed_def standardize_Some)
qed

text \<open>What a processed file holds afterwards.\<close>

lemma processed_records:
  assumes "file_processed f"
  shows "\<exists>qs ev qs' c. fcontent f = Json (JList qs) \<and> process_questions 0 0 qs = (ev, Inr (qs', c))
           \<and> records f = qs \<and> records (fst (snd (process_file f))) = qs'
           \<and> snd (snd (process_file f)) = Some c \<and> fwritable f
           \<and> fst (process_file f) = Processing (fname f) # ev @ [Updated c (length qs)]"
proof -
  from assms obtain c where "snd (snd (process_file f)) = Some c"
    by (auto simp add: file_processed_def)
  from process_file_Some[OF this] this show ?thesis
    by (auto simp add: records_def)
qed

lemma processed_question:
  assumes "file_processed f" and "i < length (records f)"
  shows "\<exists>c ev c'. process_question i c (records f ! i) =
            (ev, Inr (records (fst (snd (process_file f))) ! i, c')) \<and> set ev \<subseteq> set (fst (process_file f))"
proof -
  from processed_records[OF assms(1)] obtain qs ev qs' c where
    h: "process_questions 0 0 qs = (ev, Inr (qs', c))" "records f = qs"
       "records (fst (snd (process_file f))) = qs'"
       "fst (process_file f) = Processing (fname f) # ev @ [Updated c (length qs)]"
    by blast
  from process_questions_nth[OF h(1), of i] assms(2) h(2) obtain ck evk ck' where
    "process_question i ck (qs ! i) = (evk, Inr (qs' ! i, ck'))" "set evk \<subseteq> set ev"
    by auto
  with h show ?thesis
    by (intro exI[of _ ck] exI[of _ evk] exI[of _ ck']) auto
qed

lemma processed_classified:
  assumes "file_processed f" and "i < length (records f)" and "classified (records f ! i)"
  shows "\<exists>code flds. get_standardized_code (section_of (records f ! i)) (subsection_of (records f ! i)) = Inr code
           \<and> records f ! i = JDict flds
           \<and> records (fst (snd (process_file f))) ! i =
               JDict (AList.update ''question_id'' (JStr (code @ ''-'' @ fmt03d (i + 1))) flds)"
proof -
  let ?q = "records f ! i"
  from processed_question[OF assms(1,2)] obtain c ev c' where
    h: "process_question i c ?q = (ev, Inr (records (fst (snd (process_file f))) ! i, c'))"
    by blast
  from assms(3) obtain flds where q: "?q = JDict flds"
    by (cases ?q) (auto simp add: classified_def is_dict_def)
  show ?thesis
  proof (cases "get_standardized_code (section_of ?q) (subsection_of ?q)")
    case (Inl e)
    from process_question_raise[OF assms(3) Inl, of i c] h show ?thesis by simp
  next
    case (Inr code)
    from process_question_assign[OF assms(3) Inr q, of i c] h Inr q show ?thesis
      by auto
  qed
qed

lemma field_update:
  "field (JDict (AList.update k v flds)) k' = (if k' = k then Some v else map_of flds k')"
  by (simp add: field_def update_conv')

lemma example_codes: "get_standardized_code (JStr ''Logical Reasoning'') (JStr ''Strengthen'') = Inr ''lr-str''"
  "fmt03d 5 = ''005''" "fmt03d (Suc (Suc 0)) = ''002''"
  "get_standardized_code (JStr ''Foo'') (JStr ''Barbaz'') = Inr ''fo-barb''"
  by code_simp+

lemma process_question_unclassified:
  "\<not> classified q \<Longrightarrow> snd (process_question i c q) = Inr (q, c)"
  by (cases "is_dict q") (simp_all add: process_question_not_dict process_question_skip)

lemma process_questions_skip_prefix:
  "\<forall>q \<in> set xs. \<not> classified q \<Longrightarrow>
     snd (process_questions i c (xs @ ys)) =
       (case snd (process_questions (i + length xs) c ys) of
          Inl e \<Rightarrow> Inl e | Inr (ys', c') \<Rightarrow> Inr (xs @ ys', c'))"
proof (induction xs arbitrary: i)
  case Nil
  then show ?case by (simp split: sum.splits)
next
  case (Cons x xs)
  then have x: "snd (process_question i c x) = Inr (x, c)"
    by (simp add: process_question_unclassified)
  from Cons have IH: "snd (process_questions (Suc i) c (xs @ ys)) =
       (case snd (process_questions (Suc i + length xs) c ys) of
          Inl e \<Rightarrow> Inl e | Inr (ys', c') \<Rightarrow> Inr (xs @ ys', c'))"
    by simp
  obtain e1 where x': "process_question i c x = (e1, Inr (x, c))"
    using x by (cases "process_question i c x") auto
  show ?case
    using IH by (auto simp add: x' split: prod.splits sum.splits)
qed

lemma process_file_ok:
  assumes "fcontent f = Json (JList qs)" and "fwritable f \<and> fdumps f"
    and "snd (process_questions 0 0 qs) = Inr (qs', c)"
  shows "snd (process_file f) = (f\<lparr>fcontent := Json (JList qs')\<rparr>, Some c)"
  using assms by (auto simp add: process_file_def split: prod.splits sum.splits)

lemma big_file_questions:
  "snd (process_questions 0 0 (replicate 999 (JDict [(''question_id'', JStr ''draft'')])
          @ [JDict [(''section'', JStr ''Logical Reasoning''), (''subsection'', JStr ''Strengthen'')]])) =
     Inr (replicate 999 (JDict [(''question_id'', JStr ''draft'')])
          @ [JDict [(''section'', JStr ''Logical Reasoning''), (''subsection'', JStr ''Strengthen''),
                    (''question_id'', JStr ''lr-str-1000'')]], 1)"
proof -
  have a: "\<forall>q \<in> set (replicate 999 (JDict [(''question_id'', JStr ''draft'')])). \<not> classified q"
    by (simp add: classified_def section_of_def dict_get_def)
  have b: "snd (process_questions 999 0
              [JDict [(''section'', JStr ''Logical Reasoning''), (''subsection'', JStr ''Strengthen'')]]) =
           Inr ([JDict [(''section'', JStr ''Logical Reasoning''), (''subsection'', JStr ''Strengthen''),
                    (''question_id'', JStr ''lr-str-1000'')]], 1)"
    by code_simp
  show ?thesis
    using process_questions_skip_prefix[OF a, of 0 0] b by simp
qed

subsection \<open>A second run\<close>

lemma dict_get_update_other:
  "k' \<noteq> k \<Longrightarrow> dict_get (AList.update k v flds) k' d = dict_get flds k' d"
  by (simp add: dict_get_def update_conv')

lemma dict_get_update_same: "dict_get (AList.update k v flds) k d = v"
  by (simp add: dict_get_def update_conv')

lemma classified_dict: "classified q \<Longrightarrow> \<exists>flds. q = JDict flds"
  by (cases q) (simp_all add: classified_def is_dict_def)

text \<open>What one step of the loop does to a record, by cases.\<close>

lemma process_question_cases:
  assumes "process_question i c q = (ev, Inr (q', c'))"
  shows "(\<not> classified q \<and> q' = q \<and> c' = c) \<or>
         (\<exists>flds code. classified q \<and> q = JDict flds
            \<and> get_standardized_code (section_of q) (subsection_of q) = Inr code
            \<and> q' = JDict (AList.update ''question_id'' (JStr (code @ ''-'' @ fmt03d (i + 1))) flds)
            \<and> c' = (if old_id q \<noteq> JStr (code @ ''-'' @ fmt03d (i + 1)) then c + 1 else c))"
proof (cases "classified q")
  case False
  from process_question_unclassified[OF False, of i c] assms False show ?thesis
    by simp
next
  case True
  then obtain flds where q: "q = JDict flds"
    using classified_dict by blast
  show ?thesis
  proof (cases "get_standardized_code (section_of q) (subsection_of q)")
    case (Inl e)
    from process_question_raise[OF True Inl, of i c] assms show ?thesis by simp
  next
    case (Inr code)
    from process_question_assign[OF True Inr q, of i c] assms True Inr q show ?thesis
      by (auto simp add: old_id_def)
  qed
qed

lemma assigned_classified:
  assumes "classified (JDict flds)"
  shows "classified (JDict (AList.update ''question_id'' v flds))"
    and "section_of (JDict (AList.update ''question_id'' v flds)) = section_of (JDict flds)"
    and "subsection_of (JDict (AList.update ''question_id'' v flds)) = subsection_of (JDict flds)"
  using assms
  by (simp_all add: classified_def is_dict_def section_of_def subsection_of_def dict_get_update_other)

lemma process_question_idem:
  assumes "process_question i c q = (ev, Inr (q', c'))"
  shows "snd (process_question i c2 q') = Inr (q', c2)"
  using process_question_cases[OF assms]
proof (elim disjE exE conjE)
  assume "\<not> classified q" "q' = q"
  then show ?thesis
    by (simp add: process_question_unclassified)
next
  fix flds code
  assume h: "classified q" "q = JDict flds"
    "get_standardized_code (section_of q) (subsection_of q) = Inr code"
    "q' = JDict (AList.update ''question_id'' (JStr (code @ ''-'' @ fmt03d (i + 1))) flds)"
  from h(1,2) have c: "classified q'" and s: "section_of q' = section_of q" "subsection_of q' = subsection_of q"
    unfolding h(4) by (simp_all add: assigned_classified)
  from h(3) s have g: "get_standardized_code (section_of q') (subsection_of q') = Inr code"
    by simp
  from process_question_assign[OF c g h(4), of i c2] show ?thesis
    by (auto simp add: dict_get_update_same h(4))
qed

lemma process_questions_idem:
  "process_questions i c qs = (ev, Inr (qs', c')) \<Longrightarrow>
     snd (process_questions i c2 qs') = Inr (qs', c2)"
proof (induction qs arbitrary: i c ev qs' c')
  case Nil
  then show ?case by simp
next
  case (Cons q qs)
  from Cons.prems obtain e1 q1 c1 e2 qs2 where
    h: "process_question i c q = (e1, Inr (q1, c1))"
       "process_questions (i + 1) c1 qs = (e2, Inr (qs2, c'))" "qs' = q1 # qs2"
    by (auto split: prod.splits sum.splits)
  from process_question_idem[OF h(1), of c2] obtain e3 where
    a: "process_question i c2 q1 = (e3, Inr (q1, c2))"
    by (cases "process_question i c2 q1") auto
  from Cons.IH[OF h(2)] obtain e4 where
    b: "process_questions (i + 1) c2 qs2 = (e4, Inr (qs2, c2))"
    by (cases "process_questions (i + 1) c2 qs2") auto
  show ?case
    using b by (simp add: h(3) a)
qed

lemma process_file_idem:
  "fst (snd (process_file (fst (snd (process_file f))))) = fst (snd (process_file f))"
proof (cases "snd (snd (process_file f))")
  case None
  show ?thesis
  proof (cases "dump_fails f")
    case True
    have "process_file (f\<lparr>fcontent := BadJson\<rparr>) =
            ([Processing (fname f), JsonError (fname f)], f\<lparr>fcontent := BadJson\<rparr>, None)"
      using process_file_BadJson[of "f\<lparr>fcontent := BadJson\<rparr>"] by simp
    with True show ?thesis
      by (simp add: process_file_dump_fails(1))
  next
    case False
    with None show ?thesis
      by (simp add: process_file_None)
  qed
next
  case (Some c)
  from process_file_Some[OF Some] obtain qs ev qs' where
    h: "fwritable f \<and> fdumps f" "process_questions 0 0 qs = (ev, Inr (qs', c))"
       "process_file f = (Processing (fname f) # ev @ [Updated c (length qs)],
                          f\<lparr>fcontent := Json (JList qs')\<rparr>, Some c)"
    by blast
  let ?g = "f\<lparr>fcontent := Json (JList qs')\<rparr>"
  have "snd (process_file ?g) = (?g\<lparr>fcontent := Json (JList qs')\<rparr>, Some 0)"
    by (rule process_file_ok[OF _ _ process_questions_idem[OF h(2)]]) (simp_all add: h(1))
  then show ?thesis
    by (simp add: h(3))
qed

lemma files_after_idem: "files_after (files_after fs) = files_after fs"
  by (simp add: files_after_map process_file_name process_file_idem)

lemma dir_after_Some: "dir_after (Some fs) = Some (files_after fs)"
  by (simp add: files_after_def dir_after_def standardize_Some)

lemma dir_after_None: "dir_after None = None"
  by (simp add: dir_after_def standardize_question_ids_def)


lemma printed_file_events:
  assumes "j < length fs" and "\<not> excluded (fname (fs ! j))"
  shows "set (fst (process_file (fs ! j))) \<subseteq> set (printed (Some fs))"
  using assms by (intro printed_events) simp_all

subsection \<open>Counting changed IDs\<close>

lemma process_question_count:
  assumes "process_question i c q = (ev, Inr (q', c'))"
  shows "c' = (if changed i q then c + 1 else c)"
  using process_question_cases[OF assms]
  by (auto simp add: changed_def new_id_def)

lemma process_questions_count:
  "process_questions i c qs = (ev, Inr (qs', c')) \<Longrightarrow>
     c' = c + length (filter (\<lambda>k. changed (i + k) (qs ! k)) [0..<length qs])"
proof (induction qs arbitrary: i c ev qs' c')
  case Nil
  then show ?case by simp
next
  case (Cons q qs)
  from Cons.prems obtain e1 q1 c1 e2 qs2 where
    h: "process_question i c q = (e1, Inr (q1, c1))"
       "process_questions (i + 1) c1 qs = (e2, Inr (qs2, c'))"
    by (auto split: prod.splits sum.splits)
  have u: "[0..<length (q # qs)] = 0 # map Suc [0..<length qs]"
    by (simp add: upt_conv_Cons map_Suc_upt del: upt_Suc)
  have "length (filter (\<lambda>k. changed (i + k) ((q # qs) ! k)) [0..<length (q # qs)]) =
        (if changed i q then 1 else 0) + length (filter (\<lambda>k. changed (i + 1 + k) (qs ! k)) [0..<length qs])"
    unfolding u by (simp add: filter_map comp_def)
  with Cons.IH[OF h(2)] process_question_count[OF h(1)] show ?case
    by simp
qed

lemma processed_count:
  assumes "file_processed f"
  shows "updated_in f = length (filter (\<lambda>i. changed i (records f ! i)) [0..<length (records f)])"
    and "Updated (updated_in f) (length (records f)) \<in> set (fst (process_file f))"
proof -
  from processed_records[OF assms] obtain qs ev qs' c where
    h: "process_questions 0 0 qs = (ev, Inr (qs', c))" "records f = qs"
       "snd (snd (process_file f)) = Some c"
       "fst (process_file f) = Processing (fname f) # ev @ [Updated c (length qs)]"
    by blast
  from assms h(3) have u: "updated_in f = c"
    by (simp add: updated_in_def file_processed_def)
  from process_questions_count[OF h(1)] show
    "updated_in f = length (filter (\<lambda>i. changed i (records f ! i)) [0..<length (records f)])"
    by (simp add: u h(2))
  show "Updated (updated_in f) (length (records f)) \<in> set (fst (process_file f))"
    by (simp add: u h(2) h(4))
qed

lemma printed_Some:
  "printed (Some fs) =
     Starting # fst (process_files fs 0 0)
       @ [Complete (length (filter file_processed fs)) (sum_list (map updated_in fs))]
       @ fst (verify_no_duplicates (files_after fs))"
proof -
  obtain ev fs' fp tq where h: "process_files fs 0 0 = (ev, fs', fp, tq)"
    by (cases "process_files fs 0 0") auto
  from process_files_counts[OF h] process_files_files[OF h] h show ?thesis
    by (simp add: printed_def standardize_Some files_after_map)
qed


subsection \<open>What the rewrite leaves alone\<close>

lemma process_question_frame:
  assumes "process_question i c q = (ev, Inr (q', c'))"
  shows "is_dict q' = is_dict q" and "\<not> is_dict q \<Longrightarrow> q' = q"
    and "other_fields q' = other_fields q"
    and "k \<noteq> ''question_id'' \<Longrightarrow> field q' k = field q k"
  using process_question_cases[OF assms]
  by (auto simp add: is_dict_def other_fields_def field_def update_conv' delete_update_same
      classified_def)

lemma unprocessed_unchanged:
  assumes "j < length fs" and "\<not> file_processed (fs ! j)" and "\<not> dump_fails (fs ! j)"
  shows "files_after fs ! j = fs ! j"
  using assms by (auto simp add: files_after_nth file_processed_def process_file_None)

lemma processed_length:
  assumes "file_processed f"
  shows "length (records (fst (snd (process_file f)))) = length (records f)"
proof -
  from processed_records[OF assms] obtain qs ev qs' c where
    "process_questions 0 0 qs = (ev, Inr (qs', c))" "records f = qs"
    "records (fst (snd (process_file f))) = qs'"
    by blast
  then show ?thesis
    using process_questions_length by auto
qed

text \<open>
  In a processed file the rewrite keeps the number of entries, writes an entry that is not a
  dict back as it is, and keeps the value and the place of every key other than
  \<open>question_id\<close>.
\<close>

lemma processed_file_frame:
  assumes "j < length fs" and "file_processed (fs ! j)"
  shows "fname (files_after fs ! j) = fname (fs ! j)
    \<and> length (records (files_after fs ! j)) = length (records (fs ! j))
    \<and> (\<forall>i. i < length (records (fs ! j)) \<longrightarrow>
          is_dict (records (files_after fs ! j) ! i) = is_dict (records (fs ! j) ! i)
        \<and> (\<not> is_dict (records (fs ! j) ! i) \<longrightarrow>
              records (files_after fs ! j) ! i = records (fs ! j) ! i)
        \<and> other_fields (records (files_after fs ! j) ! i) = other_fields (records (fs ! j) ! i)
        \<and> (\<forall>k. k \<noteq> ''question_id'' \<longrightarrow>
              field (records (files_after fs ! j) ! i) k = field (records (fs ! j) ! i) k))"
proof -
  let ?f = "fs ! j"
  from assms have after: "files_after fs ! j = fst (snd (process_file ?f))"
    by (simp add: files_after_nth file_processed_def)
  have rec: "is_dict (records (files_after fs ! j) ! i) = is_dict (records ?f ! i)
        \<and> (\<not> is_dict (records ?f ! i) \<longrightarrow> records (files_after fs ! j) ! i = records ?f ! i)
        \<and> other_fields (records (files_after fs ! j) ! i) = other_fields (records ?f ! i)
        \<and> (\<forall>k. k \<noteq> ''question_id'' \<longrightarrow>
              field (records (files_after fs ! j) ! i) k = field (records ?f ! i) k)"
    if "i < length (records ?f)" for i
  proof -
    from processed_question[OF assms(2) that] obtain c ev c' where
      "process_question i c (records ?f ! i) = (ev, Inr (records (fst (snd (process_file ?f))) ! i, c'))"
      by blast
    from process_question_frame[OF this] show ?thesis
      by (simp add: after)
  qed
  from rec processed_length[OF assms(2)] show ?thesis
    by (simp add: after process_file_name)
qed

text \<open>
  A file that is not processed is left as it is, unless its write step failed halfway: then
  it is left truncated.
\<close>

lemma unprocessed_file_after:
  assumes "j < length fs" and "\<not> file_processed (fs ! j)"
  shows "files_after fs ! j =
           (if \<not> excluded (fname (fs ! j)) \<and> dump_fails (fs ! j)
            then (fs ! j)\<lparr>fcontent := BadJson\<rparr> else fs ! j)"
  using assms by (auto simp add: files_after_nth file_processed_def process_file_None)

subsection \<open>The duplicate scan\<close>

lemma hash_key_None: "hash_key v = None \<longleftrightarrow> \<not> hashable v"
  by (cases v) simp_all

lemma scan_questions_Cons:
  "scan_questions (q # qs) A D =
     (if truthy (id_of q)
      then (case hash_key (id_of q) of
              None \<Rightarrow> ((A, D), Some TypeError)
            | Some k \<Rightarrow> if k \<in> A then scan_questions qs A (insert k D)
                        else scan_questions qs (insert k A) D)
      else scan_questions qs A D)"
  by (cases q) (simp_all add: id_of_def)

declare scan_questions.simps(2) [simp del]

lemma scan_questions_skip:
  "\<not> truthy (id_of q) \<Longrightarrow> scan_questions (q # qs) A D = scan_questions qs A D"
  by (simp add: scan_questions_Cons)

lemma scan_questions_key:
  "truthy (id_of q) \<Longrightarrow> hash_key (id_of q) = Some k \<Longrightarrow>
     scan_questions (q # qs) A D =
       (if k \<in> A then scan_questions qs A (insert k D) else scan_questions qs (insert k A) D)"
  by (simp add: scan_questions_Cons)

lemma scan_questions_blocked:
  "blocks q \<Longrightarrow> scan_questions (q # qs) A D = ((A, D), Some TypeError)"
  by (simp add: scan_questions_Cons blocks_def hash_key_None[symmetric])

lemma not_blocks_cases:
  assumes "\<not> blocks q"
  obtains "\<not> truthy (id_of q)" | k where "truthy (id_of q)" "hash_key (id_of q) = Some k"
  using assms by (cases "hash_key (id_of q)") (auto simp add: blocks_def hash_key_None)

lemma scan_questions_mono:
  "scan_questions qs A D = ((A', D'), r) \<Longrightarrow> A \<subseteq> A' \<and> D \<subseteq> D'"
proof (induction qs arbitrary: A D)
  case Nil
  then show ?case by simp
next
  case (Cons q qs)
  show ?case
  proof (cases "blocks q")
    case True
    with Cons.prems show ?thesis
      by (simp add: scan_questions_blocked)
  next
    case False
    then show ?thesis
    proof (cases rule: not_blocks_cases)
      case 1
      with Cons show ?thesis
        by (simp add: scan_questions_skip)
    next
      case (2 k)
      with Cons.prems have
        "scan_questions qs A (insert k D) = ((A', D'), r) \<or> scan_questions qs (insert k A) D = ((A', D'), r)"
        by (auto simp add: scan_questions_key split: if_splits)
      with Cons.IH show ?thesis
        by blast
    qed
  qed
qed

text \<open>
  A record the scan reaches puts its key into \<open>all_ids\<close>, and into \<open>duplicate_ids\<close> when the
  key was there already.
\<close>

lemma scan_questions_seen:
  "scan_questions qs A D = ((A', D'), r) \<Longrightarrow> i < length qs \<Longrightarrow>
   \<forall>q \<in> set (take i qs). \<not> blocks q \<Longrightarrow>
   truthy (id_of (qs ! i)) \<Longrightarrow> hash_key (id_of (qs ! i)) = Some k \<Longrightarrow>
     k \<in> A' \<and> (k \<in> A \<longrightarrow> k \<in> D')"
proof (induction qs arbitrary: A D i)
  case Nil
  then show ?case by simp
next
  case (Cons q qs)
  show ?case
  proof (cases i)
    case 0
    with Cons.prems have
      "scan_questions qs A (insert k D) = ((A', D'), r) \<and> k \<in> A
       \<or> scan_questions qs (insert k A) D = ((A', D'), r) \<and> k \<notin> A"
      by (auto simp add: scan_questions_key split: if_splits)
    then show ?thesis
      using scan_questions_mono by blast
  next
    case (Suc i')
    with Cons.prems have nb: "\<not> blocks q" and i': "i' < length qs"
      and pre: "\<forall>q \<in> set (take i' qs). \<not> blocks q"
      and key: "truthy (id_of (qs ! i'))" "hash_key (id_of (qs ! i')) = Some k"
      by simp_all
    from nb show ?thesis
    proof (cases rule: not_blocks_cases)
      case 1
      with Cons.prems(1) have "scan_questions qs A D = ((A', D'), r)"
        by (simp add: scan_questions_skip)
      from Cons.IH[OF this i' pre key] show ?thesis .
    next
      case (2 k0)
      with Cons.prems(1) consider
        "scan_questions qs A (insert k0 D) = ((A', D'), r)"
        | "scan_questions qs (insert k0 A) D = ((A', D'), r)"
        by (auto simp add: scan_questions_key split: if_splits)
      then show ?thesis
      proof cases
        case 1
        from Cons.IH[OF this i' pre key] show ?thesis .
      next
        case 2
        from Cons.IH[OF this i' pre key] show ?thesis by simp
      qed
    qed
  qed
qed

lemma scan_questions_twice:
  "scan_questions qs A D = ((A', D'), r) \<Longrightarrow> i1 < i2 \<Longrightarrow> i2 < length qs \<Longrightarrow>
   \<forall>q \<in> set (take i2 qs). \<not> blocks q \<Longrightarrow>
   truthy (id_of (qs ! i1)) \<Longrightarrow> hash_key (id_of (qs ! i1)) = Some k \<Longrightarrow>
   truthy (id_of (qs ! i2)) \<Longrightarrow> hash_key (id_of (qs ! i2)) = Some k \<Longrightarrow>
     k \<in> D'"
proof (induction qs arbitrary: A D i1 i2)
  case Nil
  then show ?case by simp
next
  case (Cons q qs)
  from Cons.prems(2) obtain j2 where i2: "i2 = Suc j2"
    by (cases i2) auto
  with Cons.prems have j2: "j2 < length qs" and nb: "\<not> blocks q"
    and pre: "\<forall>q \<in> set (take j2 qs). \<not> blocks q"
    and key2: "truthy (id_of (qs ! j2))" "hash_key (id_of (qs ! j2)) = Some k"
    by simp_all
  show ?case
  proof (cases i1)
    case 0
    with Cons.prems have
      "scan_questions qs A (insert k D) = ((A', D'), r)
       \<or> scan_questions qs (insert k A) D = ((A', D'), r)"
      by (auto simp add: scan_questions_key split: if_splits)
    then show ?thesis
    proof
      assume "scan_questions qs A (insert k D) = ((A', D'), r)"
      then show ?thesis
        using scan_questions_mono by blast
    next
      assume "scan_questions qs (insert k A) D = ((A', D'), r)"
      from scan_questions_seen[OF this j2 pre key2] show ?thesis by simp
    qed
  next
    case (Suc j1)
    with Cons.prems i2 have lt: "j1 < j2"
      and key1: "truthy (id_of (qs ! j1))" "hash_key (id_of (qs ! j1)) = Some k"
      by simp_all
    from nb show ?thesis
    proof (cases rule: not_blocks_cases)
      case 1
      with Cons.prems(1) have "scan_questions qs A D = ((A', D'), r)"
        by (simp add: scan_questions_skip)
      from Cons.IH[OF this lt j2 pre key1 key2] show ?thesis .
    next
      case (2 k0)
      with Cons.prems(1) consider
        "scan_questions qs A (insert k0 D) = ((A', D'), r)"
        | "scan_questions qs (insert k0 A) D = ((A', D'), r)"
        by (auto simp add: scan_questions_key split: if_splits)
      then show ?thesis
      proof cases
        case 1
        from Cons.IH[OF this lt j2 pre key1 key2] show ?thesis .
      next
        case 2
        from Cons.IH[OF this lt j2 pre key1 key2] show ?thesis .
      qed
    qed
  qed
qed

text \<open>Only records with a truthy \<open>question_id\<close> contribute to the two sets.\<close>

lemma scan_questions_sound:
  "scan_questions qs A D = ((A', D'), r) \<Longrightarrow> k \<in> A' \<union> D' \<Longrightarrow>
     k \<in> A \<union> D \<or> (\<exists>q \<in> set qs. truthy (id_of q) \<and> hash_key (id_of q) = Some k)"
proof (induction qs arbitrary: A D)
  case Nil
  then show ?case by simp
next
  case (Cons q qs)
  show ?case
  proof (cases "blocks q")
    case True
    with Cons.prems show ?thesis
      by (simp add: scan_questions_blocked)
  next
    case False
    then show ?thesis
    proof (cases rule: not_blocks_cases)
      case 1
      with Cons.prems(1) have "scan_questions qs A D = ((A', D'), r)"
        by (simp add: scan_questions_skip)
      from Cons.IH[OF this Cons.prems(2)] show ?thesis by auto
    next
      case (2 k0)
      with Cons.prems(1) consider
        "scan_questions qs A (insert k0 D) = ((A', D'), r)"
        | "scan_questions qs (insert k0 A) D = ((A', D'), r)"
        by (auto simp add: scan_questions_key split: if_splits)
      then show ?thesis
      proof cases
        case 1
        from Cons.IH[OF this Cons.prems(2)] 2 show ?thesis by auto
      next
        case 2
        from Cons.IH[OF this Cons.prems(2)] \<open>truthy (id_of q)\<close> \<open>hash_key (id_of q) = Some k0\<close>
        show ?thesis by auto
      qed
    qed
  qed
qed

lemma scan_questions_remove:
  "\<not> truthy (id_of q) \<Longrightarrow> scan_questions (xs @ q # ys) A D = scan_questions (xs @ ys) A D"
proof (induction xs arbitrary: A D)
  case Nil
  then show ?case by (simp add: scan_questions_skip)
next
  case (Cons x xs)
  then show ?case
    by (simp add: scan_questions_Cons split: option.splits)
qed

lemma scan_questions_no_dicts:
  "\<forall>q \<in> set qs. \<not> is_dict q \<Longrightarrow> scan_questions qs A D = ((A, D), None)"
proof (induction qs)
  case Nil
  then show ?case by simp
next
  case (Cons q qs)
  then have "\<not> truthy (id_of q)"
    by (cases q) (simp_all add: id_of_def is_dict_def)
  with Cons show ?case
    by (simp add: scan_questions_skip)
qed

subsection \<open>The scan over files\<close>

lemma iterate_not_list:
  assumes "\<forall>qs. j \<noteq> JList qs" and "iterate j = Inr xs"
  shows "\<forall>q \<in> set xs. \<not> is_dict q"
  using assms by (cases j) (auto simp add: is_dict_def)

text \<open>The sets a file leaves are those the scan of its question array leaves.\<close>

lemma scan_file_sets:
  "snd (scan_file f A D) = fst (scan_questions (records f) A D)"
proof (cases "fcontent f")
  case Unreadable
  then show ?thesis by (simp add: scan_file_def records_def)
next
  case BadJson
  then show ?thesis by (simp add: scan_file_def records_def)
next
  case (Json j)
  show ?thesis
  proof (cases "\<exists>qs. j = JList qs")
    case True
    then obtain qs where "j = JList qs" by blast
    with Json show ?thesis
      by (auto simp add: scan_file_def records_def split: prod.splits option.splits)
  next
    case False
    then have r: "records f = []"
      using Json by (cases j) (simp_all add: records_def)
    show ?thesis
    proof (cases "iterate j")
      case (Inl e)
      with Json r show ?thesis by (simp add: scan_file_def)
    next
      case (Inr xs)
      with iterate_not_list[of j xs] False have "scan_questions xs A D = ((A, D), None)"
        by (intro scan_questions_no_dicts) blast
      with Json r Inr show ?thesis by (simp add: scan_file_def)
    qed
  qed
qed

lemma scan_file_events:
  "fst (scan_file f A D) =
     (case fcontent f of
        Unreadable \<Rightarrow> [CheckError (fname f) OSError]
      | BadJson \<Rightarrow> [CheckError (fname f) JSONDecodeError]
      | Json j \<Rightarrow>
          (case iterate j of
             Inl e \<Rightarrow> [CheckError (fname f) e]
           | Inr xs \<Rightarrow>
               (case snd (scan_questions xs A D) of
                  None \<Rightarrow> [] | Some e \<Rightarrow> [CheckError (fname f) e])))"
  by (auto simp add: scan_file_def split: content.splits sum.splits prod.splits option.splits)

lemma scan_file_mono:
  "scan_file f A D = (ev, A', D') \<Longrightarrow> A \<subseteq> A' \<and> D \<subseteq> D'"
proof -
  assume h: "scan_file f A D = (ev, A', D')"
  obtain r where "scan_questions (records f) A D = ((A', D'), r)"
    using scan_file_sets[of f A D] h by (cases "scan_questions (records f) A D") auto
  then show ?thesis
    by (rule scan_questions_mono)
qed

lemma scan_files_mono:
  "scan_files fs A D = (ev, A', D') \<Longrightarrow> A \<subseteq> A' \<and> D \<subseteq> D'"
proof (induction fs arbitrary: A D ev)
  case Nil
  then show ?case by simp
next
  case (Cons f fs)
  show ?case
  proof (cases "excluded (fname f)")
    case True
    with Cons show ?thesis by simp
  next
    case False
    with Cons.prems obtain e1 A1 D1 e2 where
      h: "scan_file f A D = (e1, A1, D1)" "scan_files fs A1 D1 = (e2, A', D')"
      by (auto split: prod.splits)
    from scan_file_mono[OF h(1)] Cons.IH[OF h(2)] show ?thesis by blast
  qed
qed

lemma reached_Cons_0:
  "reached (f # fs) 0 i \<longleftrightarrow>
     \<not> excluded (fname f) \<and> i < length (records f) \<and> (\<forall>q \<in> set (take i (records f)). \<not> blocks q)"
  by (simp add: reached_def)

lemma reached_Cons_Suc: "reached (f # fs) (Suc j) i \<longleftrightarrow> reached fs j i"
  by (simp add: reached_def)

lemma scan_files_seen:
  "scan_files fs A D = (ev, A', D') \<Longrightarrow> reached fs j i \<Longrightarrow>
   truthy (id_of (records (fs ! j) ! i)) \<Longrightarrow> hash_key (id_of (records (fs ! j) ! i)) = Some k \<Longrightarrow>
     k \<in> A' \<and> (k \<in> A \<longrightarrow> k \<in> D')"
proof (induction fs arbitrary: A D ev j)
  case Nil
  then show ?case by (simp add: reached_def)
next
  case (Cons f fs)
  show ?case
  proof (cases j)
    case 0
    with Cons.prems have nx: "\<not> excluded (fname f)" and i: "i < length (records f)"
      and pre: "\<forall>q \<in> set (take i (records f)). \<not> blocks q"
      and key: "truthy (id_of (records f ! i))" "hash_key (id_of (records f ! i)) = Some k"
      by (simp_all add: reached_Cons_0)
    from nx Cons.prems(1) obtain e1 A1 D1 e2 where
      h: "scan_file f A D = (e1, A1, D1)" "scan_files fs A1 D1 = (e2, A', D')"
      by (auto split: prod.splits)
    obtain r where "scan_questions (records f) A D = ((A1, D1), r)"
      using scan_file_sets[of f A D] h(1) by (cases "scan_questions (records f) A D") auto
    from scan_questions_seen[OF this i pre key] scan_files_mono[OF h(2)] show ?thesis
      by blast
  next
    case (Suc j')
    with Cons.prems have re: "reached fs j' i"
      and key: "truthy (id_of (records (fs ! j') ! i))" "hash_key (id_of (records (fs ! j') ! i)) = Some k"
      by (simp_all add: reached_Cons_Suc)
    show ?thesis
    proof (cases "excluded (fname f)")
      case True
      with Cons.prems(1) have "scan_files fs A D = (ev, A', D')" by simp
      from Cons.IH[OF this re key] show ?thesis .
    next
      case False
      with Cons.prems(1) obtain e1 A1 D1 e2 where
        h: "scan_file f A D = (e1, A1, D1)" "scan_files fs A1 D1 = (e2, A', D')"
        by (auto split: prod.splits)
      from Cons.IH[OF h(2) re key] scan_file_mono[OF h(1)] show ?thesis
        by blast
    qed
  qed
qed

lemma scan_files_twice:
  "scan_files fs A D = (ev, A', D') \<Longrightarrow> reached fs j1 i1 \<Longrightarrow> reached fs j2 i2 \<Longrightarrow>
   j1 < j2 \<or> (j1 = j2 \<and> i1 < i2) \<Longrightarrow>
   truthy (id_of (records (fs ! j1) ! i1)) \<Longrightarrow> hash_key (id_of (records (fs ! j1) ! i1)) = Some k \<Longrightarrow>
   truthy (id_of (records (fs ! j2) ! i2)) \<Longrightarrow> hash_key (id_of (records (fs ! j2) ! i2)) = Some k \<Longrightarrow>
     k \<in> D'"
proof (induction fs arbitrary: A D ev j1 j2)
  case Nil
  then show ?case by (simp add: reached_def)
next
  case (Cons f fs)
  show ?case
  proof (cases j1)
    case 0
    with Cons.prems have nx: "\<not> excluded (fname f)" and i1: "i1 < length (records f)"
      and pre1: "\<forall>q \<in> set (take i1 (records f)). \<not> blocks q"
      and key1: "truthy (id_of (records f ! i1))" "hash_key (id_of (records f ! i1)) = Some k"
      by (simp_all add: reached_Cons_0)
    from nx Cons.prems(1) obtain e1 A1 D1 e2 where
      h: "scan_file f A D = (e1, A1, D1)" "scan_files fs A1 D1 = (e2, A', D')"
      by (auto split: prod.splits)
    obtain r where sq: "scan_questions (records f) A D = ((A1, D1), r)"
      using scan_file_sets[of f A D] h(1) by (cases "scan_questions (records f) A D") auto
    show ?thesis
    proof (cases j2)
      case 0
      with Cons.prems \<open>j1 = 0\<close> have lt: "i1 < i2" and i2: "i2 < length (records f)"
        and pre2: "\<forall>q \<in> set (take i2 (records f)). \<not> blocks q"
        and key2: "truthy (id_of (records f ! i2))" "hash_key (id_of (records f ! i2)) = Some k"
        by (simp_all add: reached_Cons_0)
      from scan_questions_twice[OF sq lt i2 pre2 key1 key2] scan_files_mono[OF h(2)]
      show ?thesis by blast
    next
      case (Suc j2')
      with Cons.prems have re: "reached fs j2' i2"
        and key2: "truthy (id_of (records (fs ! j2') ! i2))"
                  "hash_key (id_of (records (fs ! j2') ! i2)) = Some k"
        by (simp_all add: reached_Cons_Suc)
      from scan_questions_seen[OF sq i1 pre1 key1] have "k \<in> A1" by simp
      with scan_files_seen[OF h(2) re key2] show ?thesis by simp
    qed
  next
    case (Suc j1')
    with Cons.prems(4) obtain j2' where j2: "j2 = Suc j2'"
      by (cases j2) auto
    with Suc Cons.prems have re: "reached fs j1' i1" "reached fs j2' i2"
      and ord: "j1' < j2' \<or> (j1' = j2' \<and> i1 < i2)"
      and keys: "truthy (id_of (records (fs ! j1') ! i1))"
                "hash_key (id_of (records (fs ! j1') ! i1)) = Some k"
                "truthy (id_of (records (fs ! j2') ! i2))"
                "hash_key (id_of (records (fs ! j2') ! i2)) = Some k"
      by (simp_all add: reached_Cons_Suc)
    show ?thesis
    proof (cases "excluded (fname f)")
      case True
      with Cons.prems(1) have "scan_files fs A D = (ev, A', D')" by simp
      from Cons.IH[OF this re ord keys] show ?thesis .
    next
      case False
      with Cons.prems(1) obtain e1 A1 D1 e2 where
        h: "scan_file f A D = (e1, A1, D1)" "scan_files fs A1 D1 = (e2, A', D')"
        by (auto split: prod.splits)
      from Cons.IH[OF h(2) re ord keys] show ?thesis .
    qed
  qed
qed

lemma scan_files_sound:
  "scan_files fs A D = (ev, A', D') \<Longrightarrow> k \<in> A' \<union> D' \<Longrightarrow>
     k \<in> A \<union> D \<or>
     (\<exists>f \<in> set fs. \<exists>q \<in> set (records f). truthy (id_of q) \<and> hash_key (id_of q) = Some k)"
proof (induction fs arbitrary: A D ev)
  case Nil
  then show ?case by simp
next
  case (Cons f fs)
  show ?case
  proof (cases "excluded (fname f)")
    case True
    with Cons.prems(1) have "scan_files fs A D = (ev, A', D')" by simp
    from Cons.IH[OF this Cons.prems(2)] show ?thesis by auto
  next
    case False
    with Cons.prems(1) obtain e1 A1 D1 e2 where
      h: "scan_file f A D = (e1, A1, D1)" "scan_files fs A1 D1 = (e2, A', D')"
      by (auto split: prod.splits)
    obtain r where sq: "scan_questions (records f) A D = ((A1, D1), r)"
      using scan_file_sets[of f A D] h(1) by (cases "scan_questions (records f) A D") auto
    from Cons.IH[OF h(2) Cons.prems(2)] scan_questions_sound[OF sq, of k] show ?thesis
      by auto
  qed
qed

lemma id_of_field:
  "field q ''question_id'' = Some v \<Longrightarrow> id_of q = v"
  by (cases q) (simp_all add: field_def id_of_def dict_get_def)

lemma id_of_truthy:
  "truthy (id_of q) \<Longrightarrow> field q ''question_id'' = Some (id_of q)"
  by (cases q) (auto simp add: field_def id_of_def dict_get_def split: option.splits)

lemma lacks_id_falsy:
  assumes "lacks_id q"
  shows "\<not> truthy (id_of q)"
proof
  assume t: "truthy (id_of q)"
  from id_of_truthy[OF t] assms have "id_of q = JNull \<or> id_of q = JStr []"
    by (auto simp add: lacks_id_def)
  with t show False
    by auto
qed

lemma duplicates_scan:
  "scan_files fs {} {} = (fst (scan_files fs {} {}), distinct_ids fs, duplicates fs)"
  by (simp add: distinct_ids_def duplicates_def)

lemma verify_found:
  assumes "duplicates fs \<noteq> {}"
  shows "FoundDuplicates (card (duplicates fs)) \<in> set (fst (verify_no_duplicates fs))"
proof -
  obtain ev A D where h: "scan_files fs {} {} = (ev, A, D)"
    by (cases "scan_files fs {} {}") auto
  with assms have "D \<noteq> {}" "duplicates fs = D"
    by (simp_all add: duplicates_def)
  with h show ?thesis
    by (simp add: verify_no_duplicates_def)
qed

lemma reached_all:
  assumes "\<forall>f \<in> set fs. \<forall>q \<in> set (records f). \<not> blocks q"
    and "j < length fs" and "\<not> excluded (fname (fs ! j))" and "i < length (records (fs ! j))"
  shows "reached fs j i"
proof -
  from assms(2) have "fs ! j \<in> set fs"
    by simp
  with assms(1) have "\<forall>q \<in> set (records (fs ! j)). \<not> blocks q"
    by blast
  then have "\<forall>q \<in> set (take i (records (fs ! j))). \<not> blocks q"
    by (blast dest: in_set_takeD)
  with assms(2,3,4) show ?thesis
    by (simp add: reached_def)
qed

lemma scan_file_remove:
  assumes "lacks_id q"
  shows "scan_file (f\<lparr>fcontent := Json (JList (xs @ q # ys))\<rparr>) A D =
         scan_file (f\<lparr>fcontent := Json (JList (xs @ ys))\<rparr>) A D"
  using scan_questions_remove[OF lacks_id_falsy[OF assms], of xs ys A D]
  by (auto simp add: scan_file_def split: prod.splits option.splits)

lemma scan_files_replace:
  assumes "fname g = fname g'" and "\<And>A D. scan_file g A D = scan_file g' A D"
  shows "scan_files (fs1 @ g # fs2) A D = scan_files (fs1 @ g' # fs2) A D"
proof (induction fs1 arbitrary: A D)
  case Nil
  from assms show ?case by simp
next
  case (Cons f fs1)
  then show ?case by simp
qed

lemma scan_files_nothing:
  assumes "\<forall>f \<in> set fs. \<forall>q \<in> set (records f). \<not> truthy (id_of q)"
  shows "distinct_ids fs = {}" and "duplicates fs = {}"
proof -
  have "k \<notin> distinct_ids fs \<union> duplicates fs" for k
  proof
    assume "k \<in> distinct_ids fs \<union> duplicates fs"
    from scan_files_sound[OF duplicates_scan this] assms show False
      by blast
  qed
  then show "distinct_ids fs = {}" and "duplicates fs = {}"
    by blast+
qed

lemma verify_no_duplicates_sets:
  "verify_no_duplicates fs =
     (if duplicates fs \<noteq> {}
      then (if sortable (duplicates fs)
            then (Verifying # fst (scan_files fs {} {})
                    @ [FoundDuplicates (card (duplicates fs)), DuplicateLines (duplicates fs)], None)
            else (Verifying # fst (scan_files fs {} {})
                    @ [FoundDuplicates (card (duplicates fs))], Some TypeError))
      else (Verifying # fst (scan_files fs {} {}) @ [NoDuplicates (card (distinct_ids fs))], None))"
  by (simp add: verify_no_duplicates_def duplicates_def distinct_ids_def split: prod.splits)

subsection \<open>The report\<close>





text \<open>
  When the duplicates found are a number and a string, \<^verbatim>\<open>sorted\<close> raises in the report
  of \<open>verify_no_duplicates\<close>, outside every handler, and the exception leaves the pass.
\<close>

lemma mixed_duplicates_raise:
  "duplicates (files_after [mixed_ids_file]) = {KNum 7, KStr ''a''}
   \<and> outcome (Some [mixed_ids_file]) = Some TypeError
   \<and> last (printed (Some [mixed_ids_file])) = FoundDuplicates 2"
  by code_simp

lemma process_question_overwrite:
  assumes "classified q" and "section_of q = JStr sec" and "subsection_of q = JStr sub"
  shows "\<exists>ev flds. q = JDict flds
           \<and> process_question i c q =
               (ev, Inr (JDict (AList.update ''question_id'' (JStr (new_id i q)) flds),
                         if old_id q = JStr (new_id i q) then c else c + 1))"
proof -
  from assms(1) obtain flds where q: "q = JDict flds"
    using classified_dict by blast
  obtain code where g: "get_standardized_code (section_of q) (subsection_of q) = Inr code"
    by (simp add: assms(2,3) get_standardized_code_str)
  define N where "N = new_id i q"
  have n: "code @ ''-'' @ fmt03d (i + 1) = N"
    by (simp add: N_def new_id_def g)
  have o: "dict_get flds ''question_id'' (JStr ''missing'') = old_id q"
    by (simp add: q old_id_def)
  from process_question_assign[OF assms(1) g q, of i c] obtain ev where
    "process_question i c q =
       (ev, Inr (JDict (AList.update ''question_id'' (JStr N) flds),
                 if old_id q \<noteq> JStr N then c + 1 else c))"
    unfolding n o by blast
  then have "process_question i c q =
       (ev, Inr (JDict (AList.update ''question_id'' (JStr N) flds),
                 if old_id q = JStr N then c else c + 1))"
    by simp
  with q show ?thesis
    unfolding N_def by blast
qed

section \<open>The claims\<close>

text \<open>
  Claim C1, as amended.  In a processed file, every record that is a dict with truthy
  \<open>section\<close> and \<open>subsection\<close> has, after the pass, the \<open>question_id\<close> made of the resolved
  code, a hyphen and the record's 1-based index in its own file in the format \<^verbatim>\<open>03d\<close>: the
  decimal digits of the index, padded with zeros to three digits when the index is below
  1000, and all its four or more digits from 1000 on.  The index is the raw one, whatever
  the earlier records are.  For ("Logical Reasoning", "Strengthen") at position 5 the result
  is "lr-str-005".
\<close>

theorem question_id_assignment:
  assumes "j < length fs" and "file_processed (fs ! j)"
    and "i < length (records (fs ! j))" and "classified (records (fs ! j) ! i)"
  shows "\<exists>code.
      get_standardized_code (section_of (records (fs ! j) ! i)) (subsection_of (records (fs ! j) ! i)) = Inr code
    \<and> field (records (files_after fs ! j) ! i) ''question_id'' = Some (JStr (code @ ''-'' @ fmt03d (i + 1)))
    \<and> (i + 1 < 1000 \<longrightarrow>
         fmt03d (i + 1) = [digit_char ((i + 1) div 100), digit_char ((i + 1) div 10 mod 10),
                           digit_char ((i + 1) mod 10)])
    \<and> (1000 \<le> i + 1 \<longrightarrow> fmt03d (i + 1) = str_nat (i + 1) \<and> 4 \<le> length (str_nat (i + 1)))
    \<and> (section_of (records (fs ! j) ! i) = JStr ''Logical Reasoning''
         \<and> subsection_of (records (fs ! j) ! i) = JStr ''Strengthen'' \<and> i + 1 = 5 \<longrightarrow>
         field (records (files_after fs ! j) ! i) ''question_id'' = Some (JStr ''lr-str-005''))"
proof -
  let ?q = "records (fs ! j) ! i"
  from assms(2) have after: "files_after fs ! j = fst (snd (process_file (fs ! j)))"
    using assms(1) by (simp add: files_after_nth file_processed_def)
  from processed_classified[OF assms(2,3,4)] obtain code flds where
    c: "get_standardized_code (section_of ?q) (subsection_of ?q) = Inr code"
    and r: "records (fst (snd (process_file (fs ! j)))) ! i =
              JDict (AList.update ''question_id'' (JStr (code @ ''-'' @ fmt03d (i + 1))) flds)"
    by blast
  have id: "field (records (files_after fs ! j) ! i) ''question_id'' = Some (JStr (code @ ''-'' @ fmt03d (i + 1)))"
    by (simp add: after r field_update)
  have ex: "section_of ?q = JStr ''Logical Reasoning'' \<and> subsection_of ?q = JStr ''Strengthen'' \<and> i + 1 = 5 \<longrightarrow>
         field (records (files_after fs ! j) ! i) ''question_id'' = Some (JStr ''lr-str-005'')"
    using c id by (auto simp add: example_codes)
  show ?thesis
    using c id ex fmt03d_three_digits[of "i + 1"] fmt03d_wide[of "i + 1"] by blast
qed

theorem question_id_assignment_witness:
  "file_processed five_file \<and> classified (records five_file ! 4)
   \<and> field (records five_file ! 4) ''question_id'' = Some (JStr ''old-1'')
   \<and> field (records (files_after [five_file] ! 0) ! 4) ''question_id'' = Some (JStr ''lr-str-005'')"
proof -
  have h1: "0 < length [five_file]" by simp
  have h2: "file_processed ([five_file] ! 0)" by code_simp
  have h3: "4 < length (records ([five_file] ! 0))" by code_simp
  have h4: "classified (records ([five_file] ! 0) ! 4)" by code_simp
  have s: "section_of (records ([five_file] ! 0) ! 4) = JStr ''Logical Reasoning''"
          "subsection_of (records ([five_file] ! 0) ! 4) = JStr ''Strengthen''"
          "field (records five_file ! 4) ''question_id'' = Some (JStr ''old-1'')"
    by code_simp+
  from question_id_assignment[OF h1 h2 h3 h4] s h2 h4 show ?thesis
    by auto
qed

text \<open>
  Claim C1 as stated fails from position 1000 on: the last record of \<open>big_file\<close>, at
  position 1000, receives "lr-str-1000", whose index part has four digits.
\<close>

theorem question_id_three_digits_counterexample:
  "file_processed big_file \<and> classified (records big_file ! 999)
   \<and> get_standardized_code (section_of (records big_file ! 999)) (subsection_of (records big_file ! 999)) = Inr ''lr-str''
   \<and> field (records (files_after [big_file] ! 0) ! 999) ''question_id'' = Some (JStr ''lr-str-1000'')"
proof -
  have r: "records big_file = replicate 999 (JDict [(''question_id'', JStr ''draft'')])
          @ [JDict [(''section'', JStr ''Logical Reasoning''), (''subsection'', JStr ''Strengthen'')]]"
    by (simp add: records_def big_file_def)
  have n: "records big_file ! 999 = JDict [(''section'', JStr ''Logical Reasoning''), (''subsection'', JStr ''Strengthen'')]"
    by (simp add: r nth_append)
  have x: "\<not> excluded (fname big_file)"
    by (simp add: big_file_def excluded_def)
  have p: "snd (process_file big_file) =
       (big_file\<lparr>fcontent := Json (JList (replicate 999 (JDict [(''question_id'', JStr ''draft'')])
          @ [JDict [(''section'', JStr ''Logical Reasoning''), (''subsection'', JStr ''Strengthen''),
                    (''question_id'', JStr ''lr-str-1000'')]]))\<rparr>, Some 1)"
    by (rule process_file_ok[OF _ _ big_file_questions]) (simp_all add: big_file_def)
  have 1: "file_processed big_file"
    using x p by (simp add: file_processed_def)
  have 2: "classified (records big_file ! 999)"
    unfolding n by code_simp
  have 3: "get_standardized_code (section_of (records big_file ! 999)) (subsection_of (records big_file ! 999)) = Inr ''lr-str''"
    unfolding n by code_simp
  have "files_after [big_file] ! 0 = fst (snd (process_file big_file))"
    using x by (simp add: files_after_nth)
  then have 4: "field (records (files_after [big_file] ! 0) ! 999) ''question_id'' = Some (JStr ''lr-str-1000'')"
    by (simp add: p records_def nth_append field_def)
  from 1 2 3 4 show ?thesis by simp
qed

text \<open>
  Claim C2.  For a pair of the taxonomy table \<open>get_standardized_code\<close> returns the table's
  code; for a pair of strings that is not in the table it returns, as a normal result, the
  first 2 characters of the lowercased section, a hyphen and the first 4 characters of the
  lowercased subsection.  ("Foo", "Barbaz") resolves to "fo-barb", and a record with that pair
  at position 2 of a processed file receives "fo-barb-002".
\<close>

theorem code_resolution:
  "((sec, inner) \<in> set SUBSECTION_CODES \<and> (sub, code) \<in> set inner \<longrightarrow>
      get_standardized_code (JStr sec) (JStr sub) = Inr code)
   \<and> ((\<forall>inner code. (sec, inner) \<in> set SUBSECTION_CODES \<longrightarrow> (sub, code) \<notin> set inner) \<longrightarrow>
      get_standardized_code (JStr sec) (JStr sub) =
        Inr (take 2 (lower sec) @ ''-'' @ take 4 (lower sub)))
   \<and> get_standardized_code (JStr ''Foo'') (JStr ''Barbaz'') = Inr ''fo-barb''
   \<and> (j < length fs \<and> file_processed (fs ! j) \<and> 1 < length (records (fs ! j))
        \<and> is_dict (records (fs ! j) ! 1)
        \<and> section_of (records (fs ! j) ! 1) = JStr ''Foo''
        \<and> subsection_of (records (fs ! j) ! 1) = JStr ''Barbaz'' \<longrightarrow>
      field (records (files_after fs ! j) ! 1) ''question_id'' = Some (JStr ''fo-barb-002''))"
proof -
  have "field (records (files_after fs ! j) ! 1) ''question_id'' = Some (JStr ''fo-barb-002'')"
    if h: "j < length fs" "file_processed (fs ! j)" "1 < length (records (fs ! j))"
      "is_dict (records (fs ! j) ! 1)"
      "section_of (records (fs ! j) ! 1) = JStr ''Foo''"
      "subsection_of (records (fs ! j) ! 1) = JStr ''Barbaz''"
  proof -
    from h have c: "classified (records (fs ! j) ! 1)"
      by (simp add: classified_def)
    from h have after: "files_after fs ! j = fst (snd (process_file (fs ! j)))"
      by (simp add: files_after_nth file_processed_def)
    from processed_classified[OF h(2) h(3) c] h(5,6) show ?thesis
      by (auto simp add: after field_update example_codes)
  qed
  then show ?thesis
    using get_standardized_code_in_table[of sec inner sub code]
      get_standardized_code_fallback[of sec sub] example_codes(4)
    by blast
qed

theorem code_resolution_witness:
  "(''Logical Reasoning'', snd (SUBSECTION_CODES ! 0)) \<in> set SUBSECTION_CODES
   \<and> (''Strengthen'', ''lr-str'') \<in> set (snd (SUBSECTION_CODES ! 0))
   \<and> get_standardized_code (JStr ''Logical Reasoning'') (JStr ''Strengthen'') = Inr ''lr-str''
   \<and> \<not> (\<exists>inner code. (''Foo'', inner) \<in> set SUBSECTION_CODES \<and> (''Barbaz'', code) \<in> set inner)
   \<and> get_standardized_code (JStr ''Foo'') (JStr ''Barbaz'') = Inr (take 2 (lower ''Foo'') @ ''-'' @ take 4 (lower ''Barbaz''))
   \<and> file_processed five_file
   \<and> section_of (records five_file ! 1) = JStr ''Foo''
   \<and> subsection_of (records five_file ! 1) = JStr ''Barbaz''
   \<and> field (records (files_after [five_file] ! 0) ! 1) ''question_id'' = Some (JStr ''fo-barb-002'')"
proof -
  have a: "(''Logical Reasoning'', snd (SUBSECTION_CODES ! 0)) \<in> set SUBSECTION_CODES"
    "(''Strengthen'', ''lr-str'') \<in> set (snd (SUBSECTION_CODES ! 0))"
    by (simp_all add: SUBSECTION_CODES_def)
  have b: "\<forall>inner code. (''Foo'', inner) \<in> set SUBSECTION_CODES \<longrightarrow> (''Barbaz'', code) \<notin> set inner"
    by (simp add: SUBSECTION_CODES_def)
  have c: "0 < length [five_file]" "file_processed ([five_file] ! 0)"
    "1 < length (records ([five_file] ! 0))" "is_dict (records ([five_file] ! 0) ! 1)"
    "section_of (records ([five_file] ! 0) ! 1) = JStr ''Foo''"
    "subsection_of (records ([five_file] ! 0) ! 1) = JStr ''Barbaz''"
    by simp code_simp+
  show ?thesis
    using code_resolution[of "''Logical Reasoning''" "snd (SUBSECTION_CODES ! 0)" "''Strengthen''" "''lr-str''" 0 "[five_file]"]
      code_resolution[of "''Foo''" _ "''Barbaz''" _ 0 "[five_file]"] a b c
    by simp
qed

text \<open>
  Claim C3.  Running the pass on the directory a first run left behind leaves every file as
  it is: every record has the same \<open>question_id\<close> after the second run as after the first.
\<close>

theorem standardize_idempotent: "dir_after (dir_after dir) = dir_after dir"
  by (cases dir) (simp_all add: dir_after_Some dir_after_None files_after_idem)

theorem standardize_idempotent_witness:
  "dir_after (Some [five_file]) = Some [five_file_after]
   \<and> dir_after (Some [five_file_after]) = Some [five_file_after]"
proof -
  have h: "dir_after (Some [five_file]) = Some [five_file_after]"
    by code_simp
  from standardize_idempotent[of "Some [five_file]"] h show ?thesis
    by simp
qed

text \<open>
  Claim C4, as amended.  In a processed file, an entry of the array that the loop skips, a
  dict whose \<open>section\<close> or \<open>subsection\<close> is missing or empty or an entry that is not a dict
  and so has neither, is written back as it was, its \<open>question_id\<close> included, and every later
  record of the file still receives the ID of its own raw position.  The warning for the
  entry's position is printed when the entry is a dict.
\<close>

theorem skip_invariant:
  assumes "j < length fs" and "file_processed (fs ! j)"
    and "i < length (records (fs ! j))"
    and "\<not> classified (records (fs ! j) ! i)"
  shows "records (files_after fs ! j) ! i = records (fs ! j) ! i
    \<and> field (records (files_after fs ! j) ! i) ''question_id'' = field (records (fs ! j) ! i) ''question_id''
    \<and> (is_dict (records (fs ! j) ! i) \<longrightarrow> MissingSection (i + 1) \<in> set (printed (Some fs)))
    \<and> (\<forall>k. i < k \<and> k < length (records (fs ! j)) \<and> classified (records (fs ! j) ! k) \<longrightarrow>
          (\<exists>code. get_standardized_code (section_of (records (fs ! j) ! k))
                      (subsection_of (records (fs ! j) ! k)) = Inr code
             \<and> field (records (files_after fs ! j) ! k) ''question_id'' =
                 Some (JStr (code @ ''-'' @ fmt03d (k + 1)))))"
proof -
  let ?f = "fs ! j"
  let ?q = "records ?f ! i"
  from assms(1,2) have after: "files_after fs ! j = fst (snd (process_file ?f))"
    and nx: "\<not> excluded (fname ?f)"
    by (simp_all add: files_after_nth file_processed_def)
  from processed_question[OF assms(2,3)] obtain c ev c' where
    h: "process_question i c ?q = (ev, Inr (records (fst (snd (process_file ?f))) ! i, c'))"
       "set ev \<subseteq> set (fst (process_file ?f))"
    by blast
  from process_question_unclassified[OF assms(4), of i c] h(1)
  have same: "records (fst (snd (process_file ?f))) ! i = ?q"
    by simp
  have warn: "MissingSection (i + 1) \<in> set (printed (Some fs))" if d: "is_dict ?q"
  proof -
    from process_question_skip[OF d assms(4), of i c] h(1) have "MissingSection (i + 1) \<in> set ev"
      by simp
    with h(2) printed_file_events[OF assms(1) nx] show ?thesis
      by blast
  qed
  have later: "\<exists>code. get_standardized_code (section_of (records ?f ! k)) (subsection_of (records ?f ! k)) = Inr code
             \<and> field (records (files_after fs ! j) ! k) ''question_id'' = Some (JStr (code @ ''-'' @ fmt03d (k + 1)))"
    if "k < length (records ?f)" "classified (records ?f ! k)" for k
    using processed_classified[OF assms(2) that] by (auto simp add: after field_update)
  from same warn later show ?thesis
    by (simp add: after)
qed

theorem skip_invariant_witness:
  "file_processed five_file
   \<and> is_dict (records five_file ! 3)
   \<and> field (records five_file ! 3) ''subsection'' = None
   \<and> field (records five_file ! 3) ''question_id'' = Some (JStr ''keep'')
   \<and> records (files_after [five_file] ! 0) ! 3 = records five_file ! 3
   \<and> field (records (files_after [five_file] ! 0) ! 3) ''question_id'' = Some (JStr ''keep'')
   \<and> MissingSection 4 \<in> set (printed (Some [five_file]))
   \<and> field (records (files_after [five_file] ! 0) ! 4) ''question_id'' = Some (JStr ''lr-str-005'')"
proof -
  have h: "0 < length [five_file]" "file_processed ([five_file] ! 0)"
    "3 < length (records ([five_file] ! 0))" "\<not> classified (records ([five_file] ! 0) ! 3)"
    by simp code_simp+
  have e: "field (records five_file ! 3) ''subsection'' = None"
    "field (records five_file ! 3) ''question_id'' = Some (JStr ''keep'')"
    "4 < length (records five_file)" "classified (records five_file ! 4)"
    "get_standardized_code (section_of (records five_file ! 4)) (subsection_of (records five_file ! 4)) = Inr ''lr-str''"
    "fmt03d 5 = ''005''" "is_dict (records five_file ! 3)"
    by code_simp+
  note t = skip_invariant[OF h, unfolded nth_Cons_0]
  from t have a: "records (files_after [five_file] ! 0) ! 3 = records five_file ! 3"
    by blast
  from t have b: "field (records (files_after [five_file] ! 0) ! 3) ''question_id'' =
                  field (records five_file ! 3) ''question_id''"
    by blast
  from t e(7) have c: "MissingSection (3 + 1) \<in> set (printed (Some [five_file]))"
    by blast
  from t have d: "\<And>k. 3 < k \<Longrightarrow> k < length (records five_file) \<Longrightarrow> classified (records five_file ! k) \<Longrightarrow>
          (\<exists>code. get_standardized_code (section_of (records five_file ! k))
                      (subsection_of (records five_file ! k)) = Inr code
             \<and> field (records (files_after [five_file] ! 0) ! k) ''question_id'' =
                 Some (JStr (code @ ''-'' @ fmt03d (k + 1))))"
    by blast
  from d[of 4] e have "field (records (files_after [five_file] ! 0) ! 4) ''question_id'' = Some (JStr ''lr-str-005'')"
    by auto
  with a b c e h show ?thesis
    by simp
qed

text \<open>
  Claim C4 as stated fails for an entry that is not a dict: the third entry of \<open>five_file\<close>,
  the string "note", has no section; the loop leaves it as it is, and passes it over before
  the warning, so no warning for position 3 is printed.
\<close>

theorem skip_invariant_counterexample:
  "file_processed five_file
   \<and> records five_file ! 2 = JStr ''note''
   \<and> field (records five_file ! 2) ''section'' = None
   \<and> records (files_after [five_file] ! 0) ! 2 = JStr ''note''
   \<and> MissingSection 3 \<notin> set (printed (Some [five_file]))"
  by code_simp

text \<open>
  Claim C6.  The loop overwrites the \<open>question_id\<close> of every record whose section and
  subsection are non-empty strings with the newly computed ID, whether or not the record had
  that ID before, and adds one to the count exactly when the old \<open>question_id\<close> (absent
  counts as "missing") differs from the new one.  For a processed file, every such record
  has the new ID afterwards, the count printed for the file is the number of records whose
  ID changed, and the total printed at the end is the sum of these counts over the files.
\<close>

theorem changed_count:
  "(classified q \<and> section_of q = JStr sec \<and> subsection_of q = JStr sub \<longrightarrow>
      (\<exists>ev flds. q = JDict flds
         \<and> process_question i c q =
             (ev, Inr (JDict (AList.update ''question_id'' (JStr (new_id i q)) flds),
                       if old_id q = JStr (new_id i q) then c else c + 1))))
   \<and> (j < length fs \<and> file_processed (fs ! j) \<longrightarrow>
        (\<forall>i. i < length (records (fs ! j)) \<and> classified (records (fs ! j) ! i) \<longrightarrow>
            field (records (files_after fs ! j) ! i) ''question_id'' =
              Some (JStr (new_id i (records (fs ! j) ! i))))
      \<and> updated_in (fs ! j) =
          length (filter (\<lambda>i. changed i (records (fs ! j) ! i)) [0..<length (records (fs ! j))])
      \<and> Updated (updated_in (fs ! j)) (length (records (fs ! j))) \<in> set (printed (Some fs))
      \<and> Complete (length (filter file_processed fs)) (sum_list (map updated_in fs))
          \<in> set (printed (Some fs)))"
proof -
  have per_file: "(\<forall>i. i < length (records (fs ! j)) \<and> classified (records (fs ! j) ! i) \<longrightarrow>
            field (records (files_after fs ! j) ! i) ''question_id'' =
              Some (JStr (new_id i (records (fs ! j) ! i))))
      \<and> updated_in (fs ! j) =
          length (filter (\<lambda>i. changed i (records (fs ! j) ! i)) [0..<length (records (fs ! j))])
      \<and> Updated (updated_in (fs ! j)) (length (records (fs ! j))) \<in> set (printed (Some fs))
      \<and> Complete (length (filter file_processed fs)) (sum_list (map updated_in fs))
          \<in> set (printed (Some fs))"
    if h: "j < length fs" "file_processed (fs ! j)"
  proof -
    let ?f = "fs ! j"
    from h have after: "files_after fs ! j = fst (snd (process_file ?f))"
      and nx: "\<not> excluded (fname ?f)"
      by (simp_all add: files_after_nth file_processed_def)
    have ids: "field (records (files_after fs ! j) ! i) ''question_id'' =
                 Some (JStr (new_id i (records ?f ! i)))"
      if "i < length (records ?f)" "classified (records ?f ! i)" for i
      using processed_classified[OF h(2) that]
      by (auto simp add: after field_update new_id_def)
    from processed_count(2)[OF h(2)] printed_file_events[OF h(1) nx]
    have upd: "Updated (updated_in ?f) (length (records ?f)) \<in> set (printed (Some fs))"
      by blast
    have tot: "Complete (length (filter file_processed fs)) (sum_list (map updated_in fs))
                 \<in> set (printed (Some fs))"
      by (simp add: printed_Some)
    from ids processed_count(1)[OF h(2)] upd tot show ?thesis
      by blast
  qed
  from per_file process_question_overwrite[of q sec sub i c] show ?thesis
    by blast
qed

theorem changed_count_witness:
  "file_processed five_file
   \<and> old_id (records five_file ! 0) = JStr ''lr-str-001''
   \<and> new_id 0 (records five_file ! 0) = ''lr-str-001''
   \<and> snd (process_question 0 0 (records five_file ! 0)) = Inr (records five_file ! 0, 0)
   \<and> field (records (files_after [five_file] ! 0) ! 0) ''question_id'' = Some (JStr ''lr-str-001'')
   \<and> map (\<lambda>i. changed i (records five_file ! i)) [0, 1, 2, 3, 4] = [False, True, False, False, True]
   \<and> Updated 2 5 \<in> set (printed (Some [five_file]))
   \<and> Complete 1 2 \<in> set (printed (Some [five_file]))"
proof -
  let ?q = "records five_file ! 0"
  have h: "0 < length [five_file]" "file_processed ([five_file] ! 0)"
    by simp code_simp
  have e: "old_id ?q = JStr ''lr-str-001''"
    "0 < length (records five_file)" "classified ?q"
    "new_id 0 ?q = ''lr-str-001''"
    "map (\<lambda>i. changed i (records five_file ! i)) [0, 1, 2, 3, 4] = [False, True, False, False, True]"
    "length (filter (\<lambda>i. changed i (records five_file ! i)) [0..<length (records five_file)]) = 2"
    "length (records five_file) = 5"
    "length (filter file_processed [five_file]) = 1"
    "section_of ?q = JStr ''Logical Reasoning''" "subsection_of ?q = JStr ''Strengthen''"
    "?q = JDict [(''question_id'', JStr ''lr-str-001''), (''section'', JStr ''Logical Reasoning''),
                 (''subsection'', JStr ''Strengthen'')]"
    by code_simp+
  note t = changed_count[where q = ?q and sec = "''Logical Reasoning''" and sub = "''Strengthen''"
      and i = 0 and c = 0 and j = 0 and fs = "[five_file]", unfolded nth_Cons_0]
  from t e(3,9,10) obtain ev flds where
    p: "?q = JDict flds"
       "process_question 0 0 ?q =
          (ev, Inr (JDict (AList.update ''question_id'' (JStr (new_id 0 ?q)) flds),
                    if old_id ?q = JStr (new_id 0 ?q) then 0 else 0 + 1))"
    by blast
  from p(1) e(11) have "AList.update ''question_id'' (JStr ''lr-str-001'') flds = flds"
    by auto
  with p e(1,4) have noop: "snd (process_question 0 0 ?q) = Inr (?q, 0)"
    by simp
  have hh: "0 < length [five_file] \<and> file_processed five_file"
    using h by simp
  note t2 = mp[OF t[THEN conjunct2] hh]
  from t2 have
    a: "\<And>i. i < length (records five_file) \<Longrightarrow> classified (records five_file ! i) \<Longrightarrow>
            field (records (files_after [five_file] ! 0) ! i) ''question_id'' =
              Some (JStr (new_id i (records five_file ! i)))"
    by blast
  from t2 have b: "updated_in five_file =
        length (filter (\<lambda>i. changed i (records five_file ! i)) [0..<length (records five_file)])"
    by blast
  from t2 have c: "Updated (updated_in five_file) (length (records five_file)) \<in> set (printed (Some [five_file]))"
    by blast
  from t2 have d: "Complete (length (filter file_processed [five_file])) (sum_list (map updated_in [five_file]))
        \<in> set (printed (Some [five_file]))"
    by blast
  from b e have u: "updated_in five_file = 2" by simp
  from a[OF e(2,3)] e(4) have f: "field (records (files_after [five_file] ! 0) ! 0) ''question_id'' = Some (JStr ''lr-str-001'')"
    by simp
  from c d u e f h noop show ?thesis
    by simp
qed


text \<open>
  Claim C9.  If code resolution raises on a record of a file, which it does when the record's
  truthy section or subsection is not a string, the file is not written: it is afterwards
  exactly what it was before the run, whatever was already reassigned in memory.  The error
  is printed for the file, the file does not count as processed, and every file of the
  directory ends as a run on that file alone would leave it, so the files after the failing
  one are processed as usual.
\<close>

theorem failed_file_untouched:
  assumes "j < length fs" and "\<not> excluded (fname (fs ! j))"
    and "i < length (records (fs ! j))" and "classified (records (fs ! j) ! i)"
    and "get_standardized_code (section_of (records (fs ! j) ! i))
           (subsection_of (records (fs ! j) ! i)) = Inl e"
  shows "files_after fs ! j = fs ! j
    \<and> \<not> file_processed (fs ! j)
    \<and> (\<exists>e'. ProcessingError (fname (fs ! j)) e' \<in> set (printed (Some fs)))
    \<and> length (files_after fs) = length fs
    \<and> (\<forall>k. k < length fs \<longrightarrow> files_after fs ! k = files_after [fs ! k] ! 0)
    \<and> ((\<forall>s. section_of (records (fs ! j) ! i) \<noteq> JStr s)
       \<or> (\<forall>s. subsection_of (records (fs ! j) ! i) \<noteq> JStr s))"
proof -
  let ?f = "fs ! j"
  have ns: "(\<forall>s. section_of (records ?f ! i) \<noteq> JStr s)
       \<or> (\<forall>s. subsection_of (records ?f ! i) \<noteq> JStr s)"
  proof (rule ccontr)
    assume "\<not> ?thesis"
    then obtain s1 s2 where
      "section_of (records ?f ! i) = JStr s1" "subsection_of (records ?f ! i) = JStr s2"
      by blast
    with assms(5) show False
      by (simp add: get_standardized_code_str)
  qed
  have np: "\<not> file_processed ?f"
  proof
    assume p: "file_processed ?f"
    from processed_classified[OF p assms(3,4)] assms(5) show False
      by auto
  qed
  from assms(3) obtain qs where qs: "fcontent ?f = Json (JList qs)"
    by (auto simp add: records_def split: content.splits json.splits)
  obtain ev r where pq: "process_questions 0 0 qs = (ev, r)"
    by (cases "process_questions 0 0 qs") auto
  have "\<exists>e'. r = Inl e'"
  proof (cases r)
    case (Inl e')
    then show ?thesis by simp
  next
    case (Inr p)
    obtain qs' c where "p = (qs', c)" by (cases p) auto
    with Inr pq have "process_questions 0 0 qs = (ev, Inr (qs', c))" by simp
    from process_questions_nth[OF this, of i] assms(3) qs obtain ck evk ck' where
      "process_question i ck (qs ! i) = (evk, Inr (qs' ! i, ck'))"
      by (auto simp add: records_def)
    with process_question_raise[OF assms(4,5), of i ck] qs show ?thesis
      by (simp add: records_def)
  qed
  then obtain e' where raised: "snd (process_questions 0 0 qs) = Inl e'"
    using pq by auto
  then have nd: "\<not> dump_fails ?f"
    by (simp add: dump_fails_def qs)
  from process_file_raise[OF qs raised] have "ProcessingError (fname ?f) e' \<in> set (fst (process_file ?f))"
    by simp
  with printed_file_events[OF assms(1,2)]
  have err: "\<exists>e'. ProcessingError (fname ?f) e' \<in> set (printed (Some fs))"
    by blast
  have each: "files_after fs ! k = files_after [fs ! k] ! 0" if "k < length fs" for k
    using that by (simp add: files_after_map)
  from unprocessed_unchanged[OF assms(1) np nd] np err each ns show ?thesis
    by (simp add: files_after_length)
qed

theorem failed_file_untouched_witness:
  "classified (records mixed_file ! 1)
   \<and> section_of (records mixed_file ! 1) = JInt 5
   \<and> get_standardized_code (section_of (records mixed_file ! 1))
         (subsection_of (records mixed_file ! 1)) = Inl AttributeError
   \<and> files_after [five_file, mixed_file, weaken_file] ! 1 = mixed_file
   \<and> ProcessingError ''mixed.json'' AttributeError
         \<in> set (printed (Some [five_file, mixed_file, weaken_file]))
   \<and> field (records (files_after [five_file, mixed_file, weaken_file] ! 2) ! 0) ''question_id'' =
         Some (JStr ''lr-wk-001'')"
proof -
  let ?fs = "[five_file, mixed_file, weaken_file]"
  have h: "1 < length ?fs" "\<not> excluded (fname (?fs ! 1))"
    "1 < length (records (?fs ! 1))" "classified (records (?fs ! 1) ! 1)"
    "get_standardized_code (section_of (records (?fs ! 1) ! 1))
       (subsection_of (records (?fs ! 1) ! 1)) = Inl AttributeError"
    by simp code_simp+
  have e: "section_of (records mixed_file ! 1) = JInt 5"
    "ProcessingError ''mixed.json'' AttributeError \<in> set (printed (Some ?fs))"
    "field (records (files_after [weaken_file] ! 0) ! 0) ''question_id'' = Some (JStr ''lr-wk-001'')"
    by code_simp+
  note t = failed_file_untouched[OF h]
  from t have a: "files_after ?fs ! 1 = mixed_file"
    by simp
  from t have "\<And>k. k < length ?fs \<Longrightarrow> files_after ?fs ! k = files_after [?fs ! k] ! 0"
    by blast
  from this[of 2] have b: "files_after ?fs ! 2 = files_after [weaken_file] ! 0"
    by simp
  from a b e h show ?thesis
    by simp
qed

text \<open>
  Claim C5, as amended.  If a non-empty string is the \<open>question_id\<close> of two different records
  that the scan reaches, it is in the duplicates set, and the report says that duplicates were
  found.  The scan reaches a record of a file that is not excluded and holds a question array
  when no earlier record of that file has a non-empty list or object as \<open>question_id\<close>; so it
  reaches every record when no record has such an ID.  The pass runs this verification on the
  files it has just written, so two files that give the same code to a record at the same
  position are reported.
\<close>

theorem duplicates_complete:
  assumes "reached fs j1 i1" and "reached fs j2 i2" and "(j1, i1) \<noteq> (j2, i2)"
    and "field (records (fs ! j1) ! i1) ''question_id'' = Some (JStr s)"
    and "field (records (fs ! j2) ! i2) ''question_id'' = Some (JStr s)"
    and "s \<noteq> []"
  shows "KStr s \<in> duplicates fs
    \<and> FoundDuplicates (card (duplicates fs)) \<in> set (fst (verify_no_duplicates fs))
    \<and> ((\<forall>f \<in> set fs. \<forall>q \<in> set (records f). \<not> blocks q) \<longrightarrow>
         (\<forall>j i. j < length fs \<and> \<not> excluded (fname (fs ! j)) \<and> i < length (records (fs ! j)) \<longrightarrow>
            reached fs j i))"
proof -
  let ?q1 = "records (fs ! j1) ! i1" and ?q2 = "records (fs ! j2) ! i2"
  from assms(4,5,6) have k1: "truthy (id_of ?q1)" "hash_key (id_of ?q1) = Some (KStr s)"
    and k2: "truthy (id_of ?q2)" "hash_key (id_of ?q2) = Some (KStr s)"
    by (simp_all add: id_of_field)
  from assms(3) consider "j1 < j2 \<or> (j1 = j2 \<and> i1 < i2)" | "j2 < j1 \<or> (j2 = j1 \<and> i2 < i1)"
    by force
  then have d: "KStr s \<in> duplicates fs"
  proof cases
    case 1
    from scan_files_twice[OF duplicates_scan assms(1,2) 1 k1 k2] show ?thesis .
  next
    case 2
    from scan_files_twice[OF duplicates_scan assms(2,1) 2 k2 k1] show ?thesis .
  qed
  then have "duplicates fs \<noteq> {}"
    by blast
  from verify_found[OF this] d reached_all[of fs] show ?thesis
    by blast
qed

theorem duplicates_complete_witness:
  "file_processed strengthen_a \<and> file_processed strengthen_b
   \<and> field (records (files_after [strengthen_a, strengthen_b] ! 0) ! 0) ''question_id'' = Some (JStr ''lr-str-001'')
   \<and> field (records (files_after [strengthen_a, strengthen_b] ! 1) ! 0) ''question_id'' = Some (JStr ''lr-str-001'')
   \<and> KStr ''lr-str-001'' \<in> duplicates (files_after [strengthen_a, strengthen_b])
   \<and> FoundDuplicates 1 \<in> set (printed (Some [strengthen_a, strengthen_b]))"
proof -
  let ?fs = "files_after [strengthen_a, strengthen_b]"
  have h: "reached ?fs 0 0" "reached ?fs 1 0" "(0::nat, 0::nat) \<noteq> (1, 0)"
    "field (records (?fs ! 0) ! 0) ''question_id'' = Some (JStr ''lr-str-001'')"
    "field (records (?fs ! 1) ! 0) ''question_id'' = Some (JStr ''lr-str-001'')"
    "''lr-str-001'' \<noteq> []"
    by code_simp+
  have e: "file_processed strengthen_a" "file_processed strengthen_b"
    "FoundDuplicates 1 \<in> set (printed (Some [strengthen_a, strengthen_b]))"
    by code_simp+
  from duplicates_complete[OF h] have "KStr ''lr-str-001'' \<in> duplicates ?fs"
    by blast
  with h e show ?thesis
    by simp
qed

text \<open>
  Claim C5 as stated fails when a record with a list as \<open>question_id\<close> comes first in a file:
  the membership test raises on it, the rest of the file is not scanned, and the ID "dup",
  which two records carry, is not reported.  The pass leaves both files as they are (no
  record has a section), and its report ends with "no duplicates".
\<close>

theorem duplicates_complete_counterexample:
  "field (records blocked_file ! 1) ''question_id'' = Some (JStr ''dup'')
   \<and> field (records dup_file ! 0) ''question_id'' = Some (JStr ''dup'')
   \<and> \<not> excluded (fname blocked_file) \<and> \<not> excluded (fname dup_file)
   \<and> files_after [blocked_file, dup_file] = [blocked_file, dup_file]
   \<and> KStr ''dup'' \<notin> duplicates [blocked_file, dup_file]
   \<and> verify_no_duplicates [blocked_file, dup_file] =
       ([Verifying, CheckError ''blocked.json'' TypeError, NoDuplicates 1], None)"
  by code_simp

text \<open>
  Claim C10.  A record whose \<open>question_id\<close> is missing, null or the empty string takes no part
  in the verification: with the record removed from its file the scan leaves the same two sets
  and prints the same report.  Every member of the two sets is the truthy \<open>question_id\<close> of a
  record that does not lack one; so when every record lacks an ID both sets are empty and the
  report says that no duplicates were found among 0 IDs.
\<close>

theorem absent_ids_ignored:
  assumes "lacks_id q"
  shows "verify_no_duplicates (fs1 @ f\<lparr>fcontent := Json (JList (xs @ q # ys))\<rparr> # fs2) =
         verify_no_duplicates (fs1 @ f\<lparr>fcontent := Json (JList (xs @ ys))\<rparr> # fs2)
    \<and> distinct_ids (fs1 @ f\<lparr>fcontent := Json (JList (xs @ q # ys))\<rparr> # fs2) =
       distinct_ids (fs1 @ f\<lparr>fcontent := Json (JList (xs @ ys))\<rparr> # fs2)
    \<and> duplicates (fs1 @ f\<lparr>fcontent := Json (JList (xs @ q # ys))\<rparr> # fs2) =
       duplicates (fs1 @ f\<lparr>fcontent := Json (JList (xs @ ys))\<rparr> # fs2)
    \<and> (\<forall>k. k \<in> distinct_ids fs \<or> k \<in> duplicates fs \<longrightarrow>
          (\<exists>g \<in> set fs. \<exists>p \<in> set (records g). \<not> lacks_id p \<and> truthy (id_of p)
              \<and> field p ''question_id'' = Some (id_of p) \<and> hash_key (id_of p) = Some k))
    \<and> ((\<forall>g \<in> set fs. \<forall>p \<in> set (records g). lacks_id p) \<longrightarrow>
          distinct_ids fs = {} \<and> duplicates fs = {}
          \<and> verify_no_duplicates fs = (Verifying # fst (scan_files fs {} {}) @ [NoDuplicates 0], None))"
proof -
  let ?g = "f\<lparr>fcontent := Json (JList (xs @ q # ys))\<rparr>"
  let ?g' = "f\<lparr>fcontent := Json (JList (xs @ ys))\<rparr>"
  have s: "scan_files (fs1 @ ?g # fs2) {} {} = scan_files (fs1 @ ?g' # fs2) {} {}"
    by (rule scan_files_replace) (simp_all add: scan_file_remove[OF assms])
  then have 1: "verify_no_duplicates (fs1 @ ?g # fs2) = verify_no_duplicates (fs1 @ ?g' # fs2)"
    and 2: "distinct_ids (fs1 @ ?g # fs2) = distinct_ids (fs1 @ ?g' # fs2)"
    and 3: "duplicates (fs1 @ ?g # fs2) = duplicates (fs1 @ ?g' # fs2)"
    by (simp_all add: verify_no_duplicates_def distinct_ids_def duplicates_def)
  have 4: "\<exists>g \<in> set fs. \<exists>p \<in> set (records g). \<not> lacks_id p \<and> truthy (id_of p)
              \<and> field p ''question_id'' = Some (id_of p) \<and> hash_key (id_of p) = Some k"
    if "k \<in> distinct_ids fs \<or> k \<in> duplicates fs" for k
  proof -
    from that have "k \<in> distinct_ids fs \<union> duplicates fs" by simp
    from scan_files_sound[OF duplicates_scan this] obtain g p where
      "g \<in> set fs" "p \<in> set (records g)" "truthy (id_of p)" "hash_key (id_of p) = Some k"
      by auto
    then show ?thesis
      using lacks_id_falsy[of p] id_of_truthy[of p] by blast
  qed
  have 5: "distinct_ids fs = {} \<and> duplicates fs = {}
          \<and> verify_no_duplicates fs = (Verifying # fst (scan_files fs {} {}) @ [NoDuplicates 0], None)"
    if "\<forall>g \<in> set fs. \<forall>p \<in> set (records g). lacks_id p"
  proof -
    from that have "\<forall>g \<in> set fs. \<forall>p \<in> set (records g). \<not> truthy (id_of p)"
      using lacks_id_falsy by blast
    from scan_files_nothing[OF this] show ?thesis
      by (simp add: verify_no_duplicates_sets)
  qed
  from 1 2 3 4 5 show ?thesis
    by blast
qed

theorem absent_ids_ignored_witness:
  "lacks_id (records no_id_file ! 0) \<and> lacks_id (records no_id_file ! 1)
   \<and> lacks_id (records no_id_file ! 2)
   \<and> verify_no_duplicates [no_id_file] =
       verify_no_duplicates [no_id_file\<lparr>fcontent := Json (JList
         [JDict [(''content'', JStr ''first'')], JDict [(''question_id'', JNull)],
          JDict [(''question_id'', JStr ''only'')]])\<rparr>]
   \<and> verify_no_duplicates [no_id_file] = ([Verifying, NoDuplicates 1], None)
   \<and> duplicates [no_id_file] = {}"
proof -
  let ?xs = "[JDict [(''content'', JStr ''first'')], JDict [(''question_id'', JNull)]]"
  let ?q = "JDict [(''question_id'', JStr [])]"
  let ?ys = "[JDict [(''question_id'', JStr ''only'')]]"
  have l: "lacks_id ?q"
    by code_simp
  have r: "lacks_id (records no_id_file ! 0)" "lacks_id (records no_id_file ! 1)"
    "lacks_id (records no_id_file ! 2)"
    by code_simp+
  have f: "no_id_file\<lparr>fcontent := Json (JList (?xs @ ?q # ?ys))\<rparr> = no_id_file"
    by (simp add: no_id_file_def)
  from absent_ids_ignored[OF l, where ?fs1.0 = "[]" and f = no_id_file and xs = ?xs
      and ys = ?ys and ?fs2.0 = "[]"]
  have "verify_no_duplicates ([] @ no_id_file\<lparr>fcontent := Json (JList (?xs @ ?q # ?ys))\<rparr> # []) =
        verify_no_duplicates ([] @ no_id_file\<lparr>fcontent := Json (JList (?xs @ ?ys))\<rparr> # [])"
    by blast
  then have a: "verify_no_duplicates [no_id_file] =
       verify_no_duplicates [no_id_file\<lparr>fcontent := Json (JList (?xs @ ?ys))\<rparr>]"
    unfolding f by simp
  have e: "verify_no_duplicates [no_id_file] = ([Verifying, NoDuplicates 1], None)"
    "duplicates [no_id_file] = {}"
    by code_simp+
  from a e r show ?thesis
    by simp
qed




end
